theory Spec2Isabelle
  imports Main "HOL-Library.Word"
begin

unbundle bit_operations_syntax

section \<open>Bytes and runes\<close>

text \<open>
  The program is \<open>goembed.go\<close>: it reads bytes from standard input and prints a Go
  source file whose string literal holds those bytes. A Go \<open>byte\<close> is an 8-bit word,
  a \<open>rune\<close> a 32-bit one; a \<open>[]byte\<close> and a Go string are lists of bytes.
  \<open>bytes_of\<close> turns the characters of a literal of the source into their bytes.
\<close>

type_synonym byte = "8 word"

type_synonym rune = "32 word"

definition bytes_of :: "string \<Rightarrow> byte list" where
  "bytes_of s = map of_char s"

section \<open>The UTF-8 decoder\<close>

text \<open>
  \<open>writer.Write\<close> calls \<open>utf8.DecodeRune\<close> of the Go standard library. The
  model follows the library function step by step: the table \<open>first\<close> classifies the
  leading byte (\<open>0xF0\<close> for ASCII, \<open>0xF1\<close> for a byte that cannot start a
  sequence, otherwise the width in the low three bits and an index into
  \<open>acceptRanges\<close> in the high four), \<open>acceptRanges\<close> bounds the second byte, and
  the later bytes must lie between \<open>0x80\<close> and \<open>0xBF\<close>. A failed decoding
  returns \<open>RuneError\<close> with width 1; on the empty slice the width is 0. The library
  picks between the byte itself and \<open>RuneError\<close> for a one-byte result with a mask;
  the model writes the two cases out.
\<close>

definition RuneError :: rune where
  "RuneError = 0xFFFD"

definition first :: "byte \<Rightarrow> byte" where
  "first b =
     (if b < 0x80 then 0xF0
      else if b < 0xC2 then 0xF1
      else if b < 0xE0 then 0x02
      else if b = 0xE0 then 0x13
      else if b < 0xED then 0x03
      else if b = 0xED then 0x23
      else if b < 0xF0 then 0x03
      else if b = 0xF0 then 0x34
      else if b < 0xF4 then 0x04
      else if b = 0xF4 then 0x44
      else 0xF1)"

definition acceptRanges :: "nat \<Rightarrow> byte \<times> byte" where
  "acceptRanges i =
     (if i = 0 then (0x80, 0xBF)
      else if i = 1 then (0xA0, 0xBF)
      else if i = 2 then (0x80, 0x9F)
      else if i = 3 then (0x90, 0xBF)
      else if i = 4 then (0x80, 0x8F)
      else (0, 0))"

definition DecodeRune :: "byte list \<Rightarrow> rune \<times> nat" where
  "DecodeRune p =
     (let n = length p in
      if n < 1 then (RuneError, 0)
      else
        let p0 = p ! 0; x = first p0 in
        if 0xF0 \<le> x then ((if x = 0xF1 then RuneError else ucast p0), 1)
        else
          let sz = unat (x AND 7); accept = acceptRanges (unat (drop_bit 4 x)) in
          if n < sz then (RuneError, 1)
          else
            let b1 = p ! 1 in
            if b1 < fst accept \<or> snd accept < b1 then (RuneError, 1)
            else if sz \<le> 2 then (push_bit 6 (ucast (p0 AND 0x1F)) OR ucast (b1 AND 0x3F), 2)
            else
              let b2 = p ! 2 in
              if b2 < 0x80 \<or> 0xBF < b2 then (RuneError, 1)
              else if sz \<le> 3 then
                (push_bit 12 (ucast (p0 AND 0x0F)) OR push_bit 6 (ucast (b1 AND 0x3F))
                   OR ucast (b2 AND 0x3F), 3)
              else
                let b3 = p ! 3 in
                if b3 < 0x80 \<or> 0xBF < b3 then (RuneError, 1)
                else
                  (push_bit 18 (ucast (p0 AND 0x07)) OR push_bit 12 (ucast (b1 AND 0x3F))
                     OR push_bit 6 (ucast (b2 AND 0x3F)) OR ucast (b3 AND 0x3F), 4))"

subsection \<open>The cases of the decoder\<close>

text \<open>
  For the proofs the decoder is split into its cases: \<open>width\<close>, \<open>lo\<close> and
  \<open>hi\<close> are what the tables give for a leading byte, \<open>cont\<close> is the range of a
  continuation byte, \<open>good\<close> says that a well-formed multi-byte sequence starts the
  list, and \<open>mrune\<close> is the rune it then decodes to.
\<close>

definition cont :: "byte \<Rightarrow> bool" where
  "cont b = (0x80 \<le> b \<and> b \<le> 0xBF)"

definition width :: "byte \<Rightarrow> nat" where
  "width p0 = unat (first p0 AND 7)"

definition lo :: "byte \<Rightarrow> byte" where
  "lo p0 = fst (acceptRanges (unat (drop_bit 4 (first p0))))"

definition hi :: "byte \<Rightarrow> byte" where
  "hi p0 = snd (acceptRanges (unat (drop_bit 4 (first p0))))"

definition mrune :: "byte list \<Rightarrow> rune" where
  "mrune p =
     (if width (p ! 0) \<le> 2 then push_bit 6 (ucast (p ! 0 AND 0x1F)) OR ucast (p ! 1 AND 0x3F)
      else if width (p ! 0) \<le> 3 then
        push_bit 12 (ucast (p ! 0 AND 0x0F)) OR push_bit 6 (ucast (p ! 1 AND 0x3F))
           OR ucast (p ! 2 AND 0x3F)
      else push_bit 18 (ucast (p ! 0 AND 0x07)) OR push_bit 12 (ucast (p ! 1 AND 0x3F))
           OR push_bit 6 (ucast (p ! 2 AND 0x3F)) OR ucast (p ! 3 AND 0x3F))"

definition good :: "byte list \<Rightarrow> bool" where
  "good p = (p \<noteq> [] \<and> \<not> 0xF0 \<le> first (p ! 0) \<and> width (p ! 0) \<le> length p
      \<and> lo (p ! 0) \<le> p ! 1 \<and> p ! 1 \<le> hi (p ! 0)
      \<and> (3 \<le> width (p ! 0) \<longrightarrow> cont (p ! 2)) \<and> (4 \<le> width (p ! 0) \<longrightarrow> cont (p ! 3)))"

definition plain :: "byte \<Rightarrow> bool" where
  "plain x = (x \<noteq> 0x5C \<and> x \<noteq> 0x22 \<and> x \<noteq> 0x0A \<and> x \<noteq> 0x00)"

lemma first_cases:
  "first b = 0xF0 \<or> first b = 0xF1 \<or> first b = 0x02 \<or> first b = 0x13 \<or> first b = 0x03
     \<or> first b = 0x23 \<or> first b = 0x34 \<or> first b = 0x04 \<or> first b = 0x44"
  by (simp add: first_def)

lemma width_cases: "\<not> 0xF0 \<le> first b \<Longrightarrow> width b = 2 \<or> width b = 3 \<or> width b = 4"
  using first_cases[of b] by (auto simp: width_def)

lemma lo_hi_cont: "\<not> 0xF0 \<le> first b \<Longrightarrow> 0x80 \<le> lo b \<and> hi b \<le> 0xBF"
  using first_cases[of b] by (auto simp: lo_def hi_def acceptRanges_def)

lemma DecodeRune_unfold:
  "DecodeRune p =
     (if p = [] then (RuneError, 0)
      else if 0xF0 \<le> first (p ! 0) then ((if first (p ! 0) = 0xF1 then RuneError else ucast (p ! 0)), 1)
      else if length p < width (p ! 0) then (RuneError, 1)
      else if p ! 1 < lo (p ! 0) \<or> hi (p ! 0) < p ! 1 then (RuneError, 1)
      else if width (p ! 0) \<le> 2 then (push_bit 6 (ucast (p ! 0 AND 0x1F)) OR ucast (p ! 1 AND 0x3F), 2)
      else if p ! 2 < 0x80 \<or> 0xBF < p ! 2 then (RuneError, 1)
      else if width (p ! 0) \<le> 3 then
        (push_bit 12 (ucast (p ! 0 AND 0x0F)) OR push_bit 6 (ucast (p ! 1 AND 0x3F))
           OR ucast (p ! 2 AND 0x3F), 3)
      else if p ! 3 < 0x80 \<or> 0xBF < p ! 3 then (RuneError, 1)
      else
        (push_bit 18 (ucast (p ! 0 AND 0x07)) OR push_bit 12 (ucast (p ! 1 AND 0x3F))
           OR push_bit 6 (ucast (p ! 2 AND 0x3F)) OR ucast (p ! 3 AND 0x3F), 4))"
  unfolding DecodeRune_def Let_def width_def lo_def hi_def
  by (cases p) simp_all

lemma noncont_out: "\<not> cont c \<Longrightarrow> 0x80 \<le> l \<Longrightarrow> h \<le> 0xBF \<Longrightarrow> c < l \<or> h < c"
  unfolding cont_def by (auto simp: word_less_nat_alt word_le_nat_alt)

lemma DR_single:
  "p \<noteq> [] \<Longrightarrow> 0xF0 \<le> first (p ! 0) \<Longrightarrow>
     DecodeRune p = ((if first (p ! 0) = 0xF1 then RuneError else ucast (p ! 0)), 1)"
  by (simp add: DecodeRune_unfold)

lemma DR_good: "good p \<Longrightarrow> DecodeRune p = (mrune p, width (p ! 0))"
proof -
  assume g: "good p"
  then have nf: "\<not> 0xF0 \<le> first (p ! 0)" by (simp add: good_def)
  from width_cases[OF nf] show ?thesis
  proof (elim disjE)
    assume "width (p ! 0) = 2"
    with g show ?thesis
      by (simp add: DecodeRune_unfold good_def mrune_def cont_def not_less)
  next
    assume "width (p ! 0) = 3"
    with g show ?thesis
      by (simp add: DecodeRune_unfold good_def mrune_def cont_def not_less)
  next
    assume "width (p ! 0) = 4"
    with g show ?thesis
      by (simp add: DecodeRune_unfold good_def mrune_def cont_def not_less)
  qed
qed

lemma DR_bad:
  assumes ne: "p \<noteq> []" and nf: "\<not> 0xF0 \<le> first (p ! 0)" and ng: "\<not> good p"
  shows "DecodeRune p = (RuneError, 1)"
proof -
  have nf': "(0xF0 \<le> first (p ! 0)) = False" using nf by simp
  have ng': "length p < width (p ! 0) \<or> p ! 1 < lo (p ! 0) \<or> hi (p ! 0) < p ! 1
      \<or> (3 \<le> width (p ! 0) \<and> (p ! 2 < 0x80 \<or> 0xBF < p ! 2))
      \<or> (4 \<le> width (p ! 0) \<and> (p ! 3 < 0x80 \<or> 0xBF < p ! 3))"
    using ng ne nf by (auto simp: good_def cont_def)
  from width_cases[OF nf] show ?thesis
  proof (elim disjE)
    assume "width (p ! 0) = 2"
    with ne ng' show ?thesis
      by (auto simp add: DecodeRune_unfold nf')
  next
    assume "width (p ! 0) = 3"
    with ne ng' show ?thesis
      by (auto simp add: DecodeRune_unfold nf')
  next
    assume "width (p ! 0) = 4"
    with ne ng' show ?thesis
      by (auto simp add: DecodeRune_unfold nf')
  qed
qed

lemma good_width: "good p \<Longrightarrow> 2 \<le> width (p ! 0) \<and> width (p ! 0) \<le> 4 \<and> width (p ! 0) \<le> length p"
  using width_cases[of "p ! 0"] by (auto simp: good_def)

lemma DecodeRune_size: "p \<noteq> [] \<Longrightarrow> 1 \<le> snd (DecodeRune p) \<and> snd (DecodeRune p) \<le> length p"
proof -
  assume ne: "p \<noteq> []"
  then have len: "1 \<le> length p" by (cases p) simp_all
  show ?thesis
  proof (cases "0xF0 \<le> first (p ! 0)")
    case True
    with ne len show ?thesis by (simp add: DR_single)
  next
    case False
    show ?thesis
    proof (cases "good p")
      case True
      with good_width[OF True] show ?thesis by (simp add: DR_good)
    next
      case g: False
      from len show ?thesis by (simp add: DR_bad[OF ne False g])
    qed
  qed
qed

lemma DecodeRune_drop:
  "p \<noteq> [] \<Longrightarrow> (r, sz) = DecodeRune p \<Longrightarrow> length p - sz < length p"
proof -
  assume ne: "p \<noteq> []" and eq: "(r, sz) = DecodeRune p"
  from eq have "sz = snd (DecodeRune p)" by (metis snd_conv)
  with DecodeRune_size[OF ne] have "1 \<le> sz" by simp
  moreover from ne have "0 < length p" by simp
  ultimately show ?thesis by arith
qed

section \<open>The escaping writer\<close>

text \<open>
  \<open>writer\<close> wraps an \<open>io.Writer\<close>. The wrapped writer is a parameter of the
  model: a function from its state and the bytes to write to the new state and the error,
  if any (the byte count it returns is dropped by the source, so it is left out).
  \<open>body\<close> is one iteration of the loop of \<open>Write\<close>: the bytes handed to the
  wrapped writer and the number of input bytes the iteration consumes; the loop runs it
  on a non-empty slice only, and \<open>sz\<close> is the \<open>size\<close> of the source.
  \<open>Fprintf_x02x\<close> is \<open>fmt.Fprintf\<close> with the format backslash, x, percent 02x:
  two lower-case hexadecimal digits, written with a single call.
  \<open>Write_loop\<close> is the \<open>for\<close> loop, stopping at the first error, and
  \<open>Write\<close> returns the new state of the wrapped writer, the count
  \<open>n - len(data)\<close> and the error.
\<close>

type_synonym ('w, 'e) io_Writer = "'w \<Rightarrow> byte list \<Rightarrow> 'w \<times> 'e option"

definition byteOrderMark :: rune where
  "byteOrderMark = 0xFEFF"

definition hexdigit :: "nat \<Rightarrow> byte" where
  "hexdigit d = bytes_of ''0123456789abcdef'' ! d"

definition Fprintf_x02x :: "byte \<Rightarrow> byte list" where
  "Fprintf_x02x b = [0x5C, 0x78, hexdigit (unat b div 16), hexdigit (unat b mod 16)]"

definition body :: "byte list \<Rightarrow> byte list \<times> nat" where
  "body data =
     (let b = data ! 0 in
      if b = 0x5C then ([0x5C, 0x5C], 1)
      else if b = 0x22 then ([0x5C, 0x22], 1)
      else if b = 0x0A then ([0x5C, 0x6E], 1)
      else if b = 0x00 then ([0x5C, 0x78, 0x30, 0x30], 1)
      else
        (case DecodeRune data of
           (r, sz) \<Rightarrow>
             if r \<noteq> RuneError \<and> r \<noteq> byteOrderMark then (take sz data, sz)
             else (Fprintf_x02x b, 1)))"

lemma body_advance: "data \<noteq> [] \<Longrightarrow> 1 \<le> snd (body data) \<and> snd (body data) \<le> length data"
  using DecodeRune_size[of data]
  by (cases data) (auto simp: body_def Let_def split: prod.splits)

lemma body_drop: "data \<noteq> [] \<Longrightarrow> (out, k) = body data \<Longrightarrow> length data - k < length data"
proof -
  assume ne: "data \<noteq> []" and eq: "(out, k) = body data"
  from eq have "k = snd (body data)" by (metis snd_conv)
  with body_advance[OF ne] have "1 \<le> k" by simp
  moreover from ne have "0 < length data" by simp
  ultimately show ?thesis by arith
qed

function Write_loop ::
  "('w, 'e) io_Writer \<Rightarrow> 'w \<Rightarrow> byte list \<Rightarrow> 'e option \<Rightarrow> 'w \<times> byte list \<times> 'e option" where
  "Write_loop wr s data err =
     (if err = None \<and> data \<noteq> [] then
        (case body data of
           (out, k) \<Rightarrow> (case wr s out of (s', err') \<Rightarrow> Write_loop wr s' (drop k data) err'))
      else (s, data, err))"
  by pat_completeness auto
termination
  by (relation "measure (\<lambda>(wr, s, data, err). length data)") (auto simp: body_drop)

definition Write :: "('w, 'e) io_Writer \<Rightarrow> 'w \<Rightarrow> byte list \<Rightarrow> 'w \<times> nat \<times> 'e option" where
  "Write wr s data =
     (let n = length data in
      case Write_loop wr s data None of (s', data', err) \<Rightarrow> (s', n - length data', err))"

declare Write_loop.simps [simp del]

text \<open>
  \<open>buffer_Write\<close> is a writer that never fails and keeps what it is given, as
  \<open>bytes.Buffer\<close> does. \<open>encode\<close> is what \<open>Write\<close> puts into it: the
  literal body for a byte sequence.
\<close>

definition buffer_Write :: "(byte list, 'e) io_Writer" where
  "buffer_Write s bs = (s @ bs, None)"

definition encode :: "byte list \<Rightarrow> byte list" where
  "encode data = fst (Write (buffer_Write :: (byte list, unit) io_Writer) [] data)"

section \<open>Go string literals\<close>

text \<open>
  What the generated text means is fixed by the Go language specification, which the
  source cites. \<open>go_string_value\<close> is the value of the body of an interpreted string
  literal: a backslash starts an escape (one of a, b, f, n, r, t, v, backslash and double
  quote, three octal digits of value at most 255, or x and two hexadecimal digits), a
  newline or a double quote outside an escape is not allowed, and every other byte stands
  for itself. The escapes with u and U (a code point in hexadecimal), which the encoder never
  prints, are not modelled and are rejected. \<open>Valid\<close> is \<open>utf8.Valid\<close>: Go
  source text must be valid UTF-8.
\<close>

definition hexval :: "byte \<Rightarrow> nat option" where
  "hexval c =
     (if 0x30 \<le> c \<and> c \<le> 0x39 then Some (unat c - 48)
      else if 0x61 \<le> c \<and> c \<le> 0x66 then Some (unat c - 87)
      else if 0x41 \<le> c \<and> c \<le> 0x46 then Some (unat c - 55)
      else None)"

definition octval :: "byte \<Rightarrow> nat option" where
  "octval c = (if 0x30 \<le> c \<and> c \<le> 0x37 then Some (unat c - 48) else None)"

definition simple_escape :: "byte \<Rightarrow> byte option" where
  "simple_escape e =
     (if e = 0x61 then Some 0x07
      else if e = 0x62 then Some 0x08
      else if e = 0x66 then Some 0x0C
      else if e = 0x6E then Some 0x0A
      else if e = 0x72 then Some 0x0D
      else if e = 0x74 then Some 0x09
      else if e = 0x76 then Some 0x0B
      else if e = 0x5C then Some 0x5C
      else if e = 0x22 then Some 0x22
      else None)"

fun go_string_value :: "byte list \<Rightarrow> byte list option" where
  "go_string_value [] = Some []"
| "go_string_value [c] = (if c = 0x5C \<or> c = 0x22 \<or> c = 0x0A then None else Some [c])"
| "go_string_value (c # e # cs) =
     (if c = 0x5C then
        (if e = 0x78 then
           (case cs of
              h1 # h2 # cs' \<Rightarrow>
                (case (hexval h1, hexval h2) of
                   (Some a, Some b) \<Rightarrow>
                     map_option ((#) (of_nat (16 * a + b))) (go_string_value cs')
                 | _ \<Rightarrow> None)
            | _ \<Rightarrow> None)
         else if octval e \<noteq> None then
           (case cs of
              o2 # o3 # cs' \<Rightarrow>
                (case (octval e, octval o2, octval o3) of
                   (Some a, Some b, Some d) \<Rightarrow>
                     if 64 * a + 8 * b + d \<le> 255
                     then map_option ((#) (of_nat (64 * a + 8 * b + d))) (go_string_value cs')
                     else None
                 | _ \<Rightarrow> None)
            | _ \<Rightarrow> None)
         else
           (case simple_escape e of
              Some v \<Rightarrow> map_option ((#) v) (go_string_value cs)
            | None \<Rightarrow> None))
      else if c = 0x22 \<or> c = 0x0A then None
      else map_option ((#) c) (go_string_value (e # cs)))"

function Valid :: "byte list \<Rightarrow> bool" where
  "Valid p =
     (if p = [] then True
      else
        (case DecodeRune p of
           (r, sz) \<Rightarrow> if r = RuneError \<and> sz = 1 then False else Valid (drop sz p)))"
  by pat_completeness auto
termination
  by (relation "measure length") (auto simp: DecodeRune_drop)

declare Valid.simps [simp del]

text \<open>
  Three scanners over the emitted text. \<open>has_bom\<close> finds the bytes EF BB BF, the UTF-8
  form of U+FEFF. \<open>unescaped_quote\<close> reads from the left, skips the character after
  each backslash, and finds a double quote that is not skipped. \<open>escapes_wellformed\<close>
  reads from the left and checks that each backslash it meets is followed by a backslash, a
  double quote, the letter n, or the letter x and two lower-case hexadecimal digits.
\<close>

fun has_bom :: "byte list \<Rightarrow> bool" where
  "has_bom (a # b # c # rest) = ((a = 0xEF \<and> b = 0xBB \<and> c = 0xBF) \<or> has_bom (b # c # rest))"
| "has_bom _ = False"

fun unescaped_quote :: "byte list \<Rightarrow> bool" where
  "unescaped_quote [] = False"
| "unescaped_quote [c] = (c = 0x22)"
| "unescaped_quote (c # e # cs) =
     (if c = 0x5C then unescaped_quote cs
      else if c = 0x22 then True
      else unescaped_quote (e # cs))"

definition lower_hex :: "byte \<Rightarrow> bool" where
  "lower_hex c = ((0x30 \<le> c \<and> c \<le> 0x39) \<or> (0x61 \<le> c \<and> c \<le> 0x66))"

fun escapes_wellformed :: "byte list \<Rightarrow> bool" where
  "escapes_wellformed [] = True"
| "escapes_wellformed [c] = (c \<noteq> 0x5C)"
| "escapes_wellformed (c # e # cs) =
     (if c = 0x5C then
        (if e = 0x5C \<or> e = 0x22 \<or> e = 0x6E then escapes_wellformed cs
         else if e = 0x78 then
           (case cs of
              h1 # h2 # cs' \<Rightarrow> lower_hex h1 \<and> lower_hex h2 \<and> escapes_wellformed cs'
            | _ \<Rightarrow> False)
         else False)
      else escapes_wellformed (e # cs))"

section \<open>The generator\<close>

text \<open>
  \<open>main\<close> takes standard output as a writer with its state, the result of reading
  standard input (an error or the bytes), the flags, and the gzip compressor of the Go
  library as a parameter \<open>gzip_best\<close>: the bytes left in the buffer by a writer at
  level \<open>gzip.BestCompression\<close>, or the error of its \<open>Write\<close> or
  \<open>Close\<close>. \<open>log.Fatal\<close> ends the process with status 1 after printing the error
  on standard error: the outcome \<open>Fatal\<close>. \<open>fmt.Printf\<close> and
  \<open>fmt.Println\<close> write once and the source drops their error.
\<close>

record flags =
  packageFlag :: "byte list"
  varFlag :: "byte list"
  gzipFlag :: bool

datatype 'e outcome = Returned | Fatal 'e

fun exit_status :: "'e outcome \<Rightarrow> nat" where
  "exit_status Returned = 0"
| "exit_status (Fatal e) = 1"

fun diagnostic :: "'e outcome \<Rightarrow> 'e option" where
  "diagnostic Returned = None"
| "diagnostic (Fatal e) = Some e"

definition Printf :: "('w, 'e) io_Writer \<Rightarrow> 'w \<Rightarrow> byte list \<Rightarrow> 'w" where
  "Printf wr s text = fst (wr s text)"

definition tab :: "byte list" where
  "tab = [0x09]"

definition nl :: "byte list" where
  "nl = [0x0A]"

text \<open>
  The template \<open>gzipPrologue\<close> is three pieces of text around two places where the
  variable name is printed; the first piece is split here into the import block and the
  start of the \<open>init\<close> function. \<open>Execute\<close> writes the pieces in order and
  returns the first error.
\<close>

definition gzipPrologue_imports :: "byte list" where
  \<open>gzipPrologue_imports =
     nl @ bytes_of ''import ('' @ nl
     @ tab @ bytes_of ''"bytes"'' @ nl
     @ tab @ bytes_of ''"compress/gzip"'' @ nl
     @ tab @ bytes_of ''"io/ioutil"'' @ nl
     @ bytes_of '')'' @ nl
     @ nl\<close>

definition gzipPrologue_init1 :: "byte list" where
  "gzipPrologue_init1 =
     bytes_of ''func init() {'' @ nl
     @ tab @ bytes_of ''r, err := gzip.NewReader(bytes.NewReader(''"

definition gzipPrologue_init2 :: "byte list" where
  "gzipPrologue_init2 =
     bytes_of ''_gzip))'' @ nl
     @ tab @ bytes_of ''if err != nil {'' @ nl
     @ tab @ tab @ bytes_of ''panic(err)'' @ nl
     @ tab @ bytes_of ''}'' @ nl
     @ tab @ bytes_of ''defer r.Close()'' @ nl
     @ tab"

definition gzipPrologue_init3 :: "byte list" where
  "gzipPrologue_init3 =
     bytes_of '', err = ioutil.ReadAll(r)'' @ nl
     @ tab @ bytes_of ''if err != nil {'' @ nl
     @ tab @ tab @ bytes_of ''panic(err)'' @ nl
     @ tab @ bytes_of ''}'' @ nl
     @ bytes_of ''}'' @ nl"

fun write_all :: "('w, 'e) io_Writer \<Rightarrow> 'w \<Rightarrow> byte list list \<Rightarrow> 'w \<times> 'e option" where
  "write_all wr s [] = (s, None)"
| "write_all wr s (t # ts) =
     (case wr s t of
        (s', None) \<Rightarrow> write_all wr s' ts
      | (s', Some e) \<Rightarrow> (s', Some e))"

definition gzipPrologue_Execute ::
  "('w, 'e) io_Writer \<Rightarrow> 'w \<Rightarrow> byte list \<Rightarrow> 'w \<times> 'e option" where
  "gzipPrologue_Execute wr s v =
     write_all wr s
       [gzipPrologue_imports @ gzipPrologue_init1, v, gzipPrologue_init2, v, gzipPrologue_init3]"

text \<open>
  \<open>copy_and_close\<close> is the end of \<open>main\<close>: \<open>io.Copy\<close> from a
  \<open>bytes.Reader\<close> hands the whole slice to \<open>writer.Write\<close> in one call (for an
  empty slice it makes no call, and \<open>Write\<close> on an empty slice writes nothing), its
  results are dropped, and the closing quote and parenthesis are printed.
\<close>

definition copy_and_close :: "('w, 'e) io_Writer \<Rightarrow> 'w \<Rightarrow> byte list \<Rightarrow> 'w \<times> 'e outcome" where
  \<open>copy_and_close stdout s raw =
     (let s' = fst (Write stdout s raw);
          s'' = Printf stdout s' (bytes_of ''")'' @ nl)
      in (s'', Returned))\<close>

definition main ::
  "('w, 'e) io_Writer \<Rightarrow> (byte list \<Rightarrow> 'e + byte list) \<Rightarrow> flags \<Rightarrow> 'e + byte list \<Rightarrow> 'w
     \<Rightarrow> 'w \<times> 'e outcome" where
  \<open>main stdout gzip_best fl stdin s0 =
     (case stdin of
        Inl err \<Rightarrow> (s0, Fatal err)
      | Inr raw \<Rightarrow>
          let s1 = Printf stdout s0 (bytes_of ''package '' @ packageFlag fl @ nl @ nl) in
          if \<not> gzipFlag fl then
            copy_and_close stdout
              (Printf stdout s1 (bytes_of ''var '' @ varFlag fl @ bytes_of '' = []byte("'')) raw
          else
            (case gzip_best raw of
               Inl err \<Rightarrow> (s1, Fatal err)
             | Inr gz \<Rightarrow>
                 (case gzipPrologue_Execute stdout s1 (varFlag fl) of
                    (s2, Some err) \<Rightarrow> (s2, Fatal err)
                  | (s2, None) \<Rightarrow>
                      let s3 = Printf stdout s2
                                 (bytes_of ''var '' @ varFlag fl
                                    @ bytes_of '' []byte // set in init'' @ nl @ nl);
                          s4 = Printf stdout s3
                                 (bytes_of ''var '' @ varFlag fl @ bytes_of ''_gzip = []byte("'')
                      in copy_and_close stdout s4 gz)))\<close>

subsection \<open>Writers and a compressor for concrete runs\<close>

text \<open>
  \<open>quota_Write\<close> accepts a given number of writes and then fails; \<open>full_Write\<close>
  fails every write, as a full device does. \<open>gzip_returning z\<close> stands for a
  compressor in runs where the compressed bytes do not matter: it always yields \<open>z\<close>.
\<close>

definition quota_Write :: "(nat \<times> byte list, string) io_Writer" where
  "quota_Write s bs =
     (if fst s = 0 then (s, Some ''write failed'') else ((fst s - 1, snd s @ bs), None))"

definition full_Write :: "(byte list, string) io_Writer" where
  "full_Write s bs = (s, Some ''no space left on device'')"

definition gzip_returning :: "byte list \<Rightarrow> byte list \<Rightarrow> string + byte list" where
  "gzip_returning z raw = Inr z"

text \<open>
  The order of the output with the gzip flag set, following the words of the specification
  (section 4.3, item 3): the stub of imports, the declaration without a value, the
  declaration of the \<open>_gzip\<close> variable, and last the initializer.
\<close>

definition claimed_gzip_output :: "flags \<Rightarrow> byte list \<Rightarrow> byte list" where
  \<open>claimed_gzip_output fl gz =
     (bytes_of ''package '' @ packageFlag fl @ nl @ nl)
     @ gzipPrologue_imports
     @ (bytes_of ''var '' @ varFlag fl @ bytes_of '' []byte // set in init'' @ nl @ nl)
     @ (bytes_of ''var '' @ varFlag fl @ bytes_of ''_gzip = []byte("'' @ encode gz
          @ bytes_of ''")'' @ nl)
     @ (gzipPrologue_init1 @ varFlag fl @ gzipPrologue_init2 @ varFlag fl @ gzipPrologue_init3)\<close>

section \<open>Properties of the decoder\<close>

text \<open>
The decoder on some known encodings: ASCII, two to four bytes, the largest code point, and ill-formed input (a lone continuation byte, an overlong form, a truncated sequence, a surrogate, a value beyond U+10FFFF).
\<close>

lemma DecodeRune_examples:
  "DecodeRune [] = (RuneError, 0)"
  "DecodeRune [0x41, 0x42] = (0x41, 1)"
  "DecodeRune [0xC3, 0xA9] = (0xE9, 2)"
  "DecodeRune [0xE2, 0x82, 0xAC, 0x41] = (0x20AC, 3)"
  "DecodeRune [0xF0, 0x9F, 0x98, 0x80] = (0x1F600, 4)"
  "DecodeRune [0xF4, 0x8F, 0xBF, 0xBF] = (0x10FFFF, 4)"
  "DecodeRune [0x80] = (RuneError, 1)"
  "DecodeRune [0xC0, 0x80] = (RuneError, 1)"
  "DecodeRune [0xE2, 0x82] = (RuneError, 1)"
  "DecodeRune [0xED, 0xA0, 0x80] = (RuneError, 1)"
  "DecodeRune [0xF4, 0x90, 0x80, 0x80] = (RuneError, 1)"
  "DecodeRune [0xFF] = (RuneError, 1)"
  by (simp_all add: DecodeRune_def first_def acceptRanges_def)

lemma mrune_append: "good P \<Longrightarrow> mrune (P @ zs) = mrune P"
  using good_width[of P] by (auto simp: mrune_def nth_append)

lemma good_append: "good P \<Longrightarrow> good (P @ zs)"
  using good_width[of P] by (auto simp: good_def nth_append)

lemma good_append_noncont:
  assumes ne: "P \<noteq> []" and nc: "\<not> cont c" and g: "good (P @ c # R)"
  shows "good P"
proof -
  have p0: "(P @ c # R) ! 0 = P ! 0" using ne by (cases P) simp_all
  have nf: "\<not> 0xF0 \<le> first (P ! 0)" using g p0 by (simp add: good_def)
  have c1: "c < lo (P ! 0) \<or> hi (P ! 0) < c"
    using noncont_out[OF nc] lo_hi_cont[OF nf] by blast
  have len: "1 \<le> length P" using ne by (cases P) simp_all
  from g p0 have g': "width (P ! 0) \<le> length (P @ c # R)"
      "lo (P ! 0) \<le> (P @ c # R) ! 1" "(P @ c # R) ! 1 \<le> hi (P ! 0)"
      "3 \<le> width (P ! 0) \<longrightarrow> cont ((P @ c # R) ! 2)"
      "4 \<le> width (P ! 0) \<longrightarrow> cont ((P @ c # R) ! 3)"
    by (simp_all add: good_def)
  have l2: "2 \<le> length P"
  proof (rule ccontr)
    assume "\<not> 2 \<le> length P"
    with len have "length P = 1" by simp
    then have "(P @ c # R) ! 1 = c" by (simp add: nth_append)
    with g'(2,3) c1 show False by auto
  qed
  have l3: "3 \<le> width (P ! 0) \<Longrightarrow> 3 \<le> length P"
  proof (rule ccontr)
    assume w: "3 \<le> width (P ! 0)" and "\<not> 3 \<le> length P"
    with l2 have "length P = 2" by simp
    then have "(P @ c # R) ! 2 = c" by (simp add: nth_append)
    with g'(4) w nc show False by simp
  qed
  have l4: "4 \<le> width (P ! 0) \<Longrightarrow> 4 \<le> length P"
  proof (rule ccontr)
    assume w: "4 \<le> width (P ! 0)" and "\<not> 4 \<le> length P"
    with l3 have "length P = 3" by simp
    then have "(P @ c # R) ! 3 = c" by (simp add: nth_append)
    with g'(5) w nc show False by simp
  qed
  from width_cases[OF nf] show ?thesis
  proof (elim disjE)
    assume "width (P ! 0) = 2"
    with ne nf g' l2 show ?thesis by (simp add: good_def nth_append)
  next
    assume w: "width (P ! 0) = 3"
    with l3 have "3 \<le> length P" by simp
    with w ne nf g' show ?thesis by (simp add: good_def nth_append)
  next
    assume w: "width (P ! 0) = 4"
    with l4 have "4 \<le> length P" by simp
    with w ne nf g' show ?thesis by (simp add: good_def nth_append)
  qed
qed

lemma DecodeRune_append_noncont:
  assumes ne: "P \<noteq> []" and nc: "\<not> cont c"
  shows "DecodeRune (P @ c # R) = DecodeRune P"
proof -
  have p0: "(P @ c # R) ! 0 = P ! 0" using ne by (cases P) simp_all
  show ?thesis
  proof (cases "0xF0 \<le> first (P ! 0)")
    case True
    with ne p0 show ?thesis by (simp add: DR_single)
  next
    case nf: False
    show ?thesis
    proof (cases "good P")
      case True
      with good_append[OF True, of "c # R"] mrune_append[OF True, of "c # R"] p0
      show ?thesis by (simp add: DR_good)
    next
      case False
      then have "\<not> good (P @ c # R)" using good_append_noncont[OF ne nc] by blast
      with False ne nf p0 show ?thesis by (simp add: DR_bad)
    qed
  qed
qed

lemma DecodeRune_take_append:
  assumes "good p"
  shows "DecodeRune (take (width (p ! 0)) p @ zs) = DecodeRune p"
proof -
  let ?u = "take (width (p ! 0)) p"
  have w: "2 \<le> width (p ! 0)" "width (p ! 0) \<le> 4" "width (p ! 0) \<le> length p"
    using good_width[OF assms] by simp_all
  have u0: "?u ! 0 = p ! 0" using w by simp
  have gu: "good ?u" using assms w by (auto simp: good_def)
  have mu: "mrune ?u = mrune p" using w by (auto simp: mrune_def)
  have "DecodeRune (?u @ zs) = (mrune (?u @ zs), width ((?u @ zs) ! 0))"
    using good_append[OF gu] by (rule DR_good)
  also have "\<dots> = (mrune p, width (p ! 0))"
    using mrune_append[OF gu, of zs] mu u0 w by (simp add: nth_append)
  finally show ?thesis using DR_good[OF assms] by simp
qed

lemma DecodeRune_bom: "DecodeRune (0xEF # 0xBB # 0xBF # t) = (byteOrderMark, 3)"
  by (simp add: DecodeRune_def first_def acceptRanges_def byteOrderMark_def)

lemma first_lead: "\<not> 0xF0 \<le> first b \<Longrightarrow> 0xC2 \<le> b"
  by (auto simp: first_def not_less split: if_splits)

lemma first_ascii: "0xF0 \<le> first b \<Longrightarrow> first b \<noteq> 0xF1 \<Longrightarrow> b < 0x80"
  by (auto simp: first_def split: if_splits)

lemma take2: "2 \<le> length p \<Longrightarrow> take 2 p = [p ! 0, p ! 1]"
  by (cases p; cases "tl p") (simp_all add: numeral_2_eq_2)

lemma take3: "3 \<le> length p \<Longrightarrow> take 3 p = [p ! 0, p ! 1, p ! 2]"
  by (cases p; cases "tl p"; cases "tl (tl p)") (simp_all add: numeral_3_eq_3 numeral_2_eq_2)

lemma take4: "4 \<le> length p \<Longrightarrow> take 4 p = [p ! 0, p ! 1, p ! 2, p ! 3]"
  by (cases p; cases "tl p"; cases "tl (tl p)"; cases "tl (tl (tl p))")
     (simp_all add: numeral_3_eq_3 numeral_2_eq_2 eval_nat_numeral)

lemma good_take:
  assumes g: "good p"
  shows "(width (p ! 0) = 2 \<and> take (width (p ! 0)) p = [p ! 0, p ! 1])
       \<or> (width (p ! 0) = 3 \<and> take (width (p ! 0)) p = [p ! 0, p ! 1, p ! 2] \<and> cont (p ! 2))
       \<or> (width (p ! 0) = 4 \<and> take (width (p ! 0)) p = [p ! 0, p ! 1, p ! 2, p ! 3]
            \<and> cont (p ! 2) \<and> cont (p ! 3))"
proof -
  from g have nf: "\<not> 0xF0 \<le> first (p ! 0)" and len: "width (p ! 0) \<le> length p"
    and c2: "3 \<le> width (p ! 0) \<longrightarrow> cont (p ! 2)" and c3: "4 \<le> width (p ! 0) \<longrightarrow> cont (p ! 3)"
    by (simp_all add: good_def)
  from width_cases[OF nf] show ?thesis
  proof (elim disjE)
    assume w: "width (p ! 0) = 2"
    with len show ?thesis by (simp add: take2)
  next
    assume w: "width (p ! 0) = 3"
    with len c2 show ?thesis by (simp add: take3)
  next
    assume w: "width (p ! 0) = 4"
    with len c2 c3 show ?thesis by (simp add: take4)
  qed
qed

lemma good_second: "good p \<Longrightarrow> cont (p ! 1)"
proof -
  assume g: "good p"
  then have nf: "\<not> 0xF0 \<le> first (p ! 0)" and b: "lo (p ! 0) \<le> p ! 1" "p ! 1 \<le> hi (p ! 0)"
    by (simp_all add: good_def)
  from lo_hi_cont[OF nf] b show ?thesis by (auto simp: cont_def)
qed

lemma good_lead: "good p \<Longrightarrow> 0xC2 \<le> p ! 0"
  by (simp add: good_def first_lead)

lemma good_take_ge:
  assumes g: "good p" and j: "width (p ! 0) \<le> j"
  shows "good (take j p) \<and> mrune (take j p) = mrune p"
proof -
  have w: "2 \<le> width (p ! 0)" "width (p ! 0) \<le> 4" "width (p ! 0) \<le> length p"
    using good_width[OF g] by simp_all
  have "good (take j p)" using g w j by (auto simp: good_def)
  moreover have "mrune (take j p) = mrune p" using w j by (auto simp: mrune_def)
  ultimately show ?thesis by simp
qed

lemma DecodeRune_take:
  assumes ne: "data \<noteq> []" and j: "1 \<le> j"
  shows "DecodeRune (take j data) = DecodeRune data
       \<or> (DecodeRune (take j data) = (RuneError, 1) \<and> j < snd (DecodeRune data))"
proof -
  let ?d = "take j data"
  have ne': "?d \<noteq> []" using ne j by (cases data) auto
  have d0: "?d ! 0 = data ! 0" using j by simp
  show ?thesis
  proof (cases "0xF0 \<le> first (data ! 0)")
    case True
    then show ?thesis using ne ne' d0 by (simp add: DR_single)
  next
    case nf: False
    show ?thesis
    proof (cases "good data")
      case g: True
      show ?thesis
      proof (cases "width (data ! 0) \<le> j")
        case True
        from good_take_ge[OF g True] show ?thesis using d0 by (simp add: DR_good g)
      next
        case False
        then have "\<not> good ?d" using d0 by (simp add: good_def)
        with nf d0 ne' have "DecodeRune ?d = (RuneError, 1)" by (simp add: DR_bad)
        with False show ?thesis by (simp add: DR_good[OF g])
      qed
    next
      case ng: False
      have "\<not> good ?d"
      proof
        assume "good ?d"
        from good_append[OF this, of "drop j data"] ng show False by simp
      qed
      with nf d0 ne' have "DecodeRune ?d = (RuneError, 1)" by (simp add: DR_bad)
      with ng nf ne show ?thesis by (simp add: DR_bad)
    qed
  qed
qed

lemma multi_is_good:
  assumes d: "DecodeRune U = (r, k)" and k: "2 \<le> k"
  shows "good U \<and> k = width (U ! 0) \<and> r = mrune U"
proof -
  have ne: "U \<noteq> []" using d k by (auto simp: DecodeRune_unfold)
  have nf: "\<not> 0xF0 \<le> first (U ! 0)" using d k ne by (auto simp: DR_single)
  have g: "good U" using d k DR_bad[OF ne nf] by auto
  with d DR_good[OF g] show ?thesis by simp
qed

lemma unat_ucast_byte: "unat (ucast (a :: byte) :: rune) = unat a"
  by transfer simp

lemma ucast_byte_not_RuneError: "(ucast (a :: byte) :: rune) \<noteq> RuneError"
proof
  assume "(ucast a :: rune) = RuneError"
  then have "unat (ucast a :: rune) = 65533" by (simp add: RuneError_def)
  then show False using unsigned_less[of a, where 'a=nat] by (simp add: unat_ucast_byte)
qed

lemma high_plain: "0x80 \<le> (c :: byte) \<Longrightarrow> c \<noteq> 0x5C \<and> c \<noteq> 0x22 \<and> c \<noteq> 0x0A \<and> c \<noteq> 0x00 \<and> c \<noteq> 0x78"
  by (auto simp: word_le_nat_alt)

lemma cont_high: "cont c \<Longrightarrow> 0x80 \<le> c"
  by (simp add: cont_def)

lemma lead_high: "0xC2 \<le> (c :: byte) \<Longrightarrow> 0x80 \<le> c"
  by (auto simp: word_le_nat_alt)

lemma high_is_plain: "0x80 \<le> x \<Longrightarrow> plain x"
  using high_plain[of x] by (simp add: plain_def)

lemma good_plain: "good p \<Longrightarrow> \<forall>x \<in> set (take (width (p ! 0)) p). plain x"
proof -
  assume g: "good p"
  have h0: "plain (p ! 0)" using good_lead[OF g] by (intro high_is_plain lead_high)
  have h1: "plain (p ! 1)" using good_second[OF g] by (intro high_is_plain cont_high)
  from good_take[OF g] show ?thesis
    using h0 h1 by (elim disjE conjE) (simp_all add: high_is_plain cont_high)
qed

lemma cont_simps: "\<not> cont 0x00" "\<not> cont 0x5C" "\<not> cont 0x22" "\<not> cont 0x0A" "\<not> cont 0xEF"
  by (simp_all add: cont_def)

lemma low_not_EF: "(x :: byte) < 0x80 \<Longrightarrow> x \<noteq> 0xEF"
  by auto

lemma cont_not_EF: "cont x \<Longrightarrow> x \<noteq> 0xEF"
  by (auto simp: cont_def)

lemma good_not_bom:
  assumes g: "good p" and nb: "mrune p \<noteq> byteOrderMark"
  shows "\<not> (p ! 0 = 0xEF \<and> p ! 1 = 0xBB \<and> p ! 2 = 0xBF)"
proof
  assume b: "p ! 0 = 0xEF \<and> p ! 1 = 0xBB \<and> p ! 2 = 0xBF"
  then have w: "width (p ! 0) = 3" by (simp add: width_def first_def)
  with good_width[OF g] have len: "3 \<le> length p" by simp
  have "p = take 3 p @ drop 3 p" by simp
  also have "take 3 p = [0xEF, 0xBB, 0xBF]" using take3[OF len] b by simp
  finally have "DecodeRune p = (byteOrderMark, 3)"
    using DecodeRune_bom[of "drop 3 p"] by simp
  with DR_good[OF g] nb show False by simp
qed

section \<open>Properties of one iteration\<close>

lemma hexdigit_props:
  assumes "d < 16"
  shows "hexval (hexdigit d) = Some d \<and> lower_hex (hexdigit d) \<and> hexdigit d < 0x80
    \<and> hexdigit d \<noteq> 0x5C \<and> hexdigit d \<noteq> 0x22 \<and> hexdigit d \<noteq> 0x0A \<and> hexdigit d \<noteq> 0x00"
proof -
  from assms have "d = 0 \<or> d = 1 \<or> d = 2 \<or> d = 3 \<or> d = 4 \<or> d = 5 \<or> d = 6 \<or> d = 7 \<or> d = 8
      \<or> d = 9 \<or> d = 10 \<or> d = 11 \<or> d = 12 \<or> d = 13 \<or> d = 14 \<or> d = 15" by arith
  then show ?thesis
    by (elim disjE) (simp_all add: hexdigit_def bytes_of_def hexval_def lower_hex_def)
qed

lemma hex_digits_of_byte:
  "lower_hex (hexdigit (unat (b :: byte) div 16)) \<and> lower_hex (hexdigit (unat b mod 16))
   \<and> plain (hexdigit (unat b div 16)) \<and> plain (hexdigit (unat b mod 16))
   \<and> hexdigit (unat b div 16) < 0x80 \<and> hexdigit (unat b mod 16) < 0x80"
proof -
  have d: "unat b div 16 < 16" "unat b mod 16 < 16"
    using unsigned_less[of b, where 'a=nat] by simp_all
  show ?thesis using hexdigit_props[OF d(1)] hexdigit_props[OF d(2)] by (simp add: plain_def)
qed

lemma body_special:
  "body (0x5C # t) = ([0x5C, 0x5C], 1)"
  "body (0x22 # t) = ([0x5C, 0x22], 1)"
  "body (0x0A # t) = ([0x5C, 0x6E], 1)"
  "body (0x00 # t) = ([0x5C, 0x78, 0x30, 0x30], 1)"
  by (simp_all add: body_def)

lemma body_cont: "cont b \<Longrightarrow> body (b # t) = (Fprintf_x02x b, 1)"
proof -
  assume c: "cont b"
  then have f: "first b = 0xF1"
    by (auto simp: cont_def first_def word_less_nat_alt word_le_nat_alt)
  have "b \<noteq> 0x5C \<and> b \<noteq> 0x22 \<and> b \<noteq> 0x0A \<and> b \<noteq> 0x00"
    using high_plain[OF cont_high[OF c]] by simp
  then show ?thesis by (simp add: body_def Let_def DR_single f)
qed

lemma body_a: "body [0x61] = ([0x61], 1)"
  by (simp add: body_def DecodeRune_def first_def RuneError_def byteOrderMark_def)

lemma body_append_noncont:
  assumes ne: "P \<noteq> []" and nc: "\<not> cont c"
  shows "body (P @ c # R) = body P"
proof -
  have p0: "(P @ c # R) ! 0 = P ! 0" using ne by (cases P) simp_all
  have dr: "DecodeRune (P @ c # R) = DecodeRune P" by (rule DecodeRune_append_noncont[OF ne nc])
  have le: "snd (DecodeRune P) \<le> length P" using DecodeRune_size[OF ne] by simp
  show ?thesis using le by (simp add: body_def Let_def p0 dr split_beta)
qed

text \<open>
The kinds of iteration: one of three two-character escapes, a hexadecimal escape, a raw ASCII byte, a raw multi-byte sequence.
\<close>

lemma body_cases [case_names bs dq nl hex ascii multi]:
  assumes ne: "data \<noteq> []"
  obtains
    (bs) "data ! 0 = 0x5C" "body data = ([0x5C, 0x5C], 1)"
  | (dq) "data ! 0 = 0x22" "body data = ([0x5C, 0x22], 1)"
  | (nl) "data ! 0 = 0x0A" "body data = ([0x5C, 0x6E], 1)"
  | (hex) "body data = (Fprintf_x02x (data ! 0), 1)"
  | (ascii) "body data = ([data ! 0], 1)" "data ! 0 < 0x80" "data ! 0 \<noteq> 0x5C" "data ! 0 \<noteq> 0x22"
      "data ! 0 \<noteq> 0x0A" "data ! 0 \<noteq> 0x00"
  | (multi) "good data" "body data = (take (width (data ! 0)) data, width (data ! 0))"
      "mrune data \<noteq> RuneError" "mrune data \<noteq> byteOrderMark"
proof -
  have z: "Fprintf_x02x 0 = [0x5C, 0x78, 0x30, 0x30]"
    by (simp add: Fprintf_x02x_def hexdigit_def bytes_of_def)
  have t1: "take (Suc 0) data = [data ! 0]" using ne by (cases data) simp_all
  show thesis
  proof (cases "data ! 0 = 0x5C \<or> data ! 0 = 0x22 \<or> data ! 0 = 0x0A \<or> data ! 0 = 0x00")
    case True
    then consider "data ! 0 = 0x5C" | "data ! 0 = 0x22" | "data ! 0 = 0x0A" | "data ! 0 = 0x00"
      by blast
    then show thesis
    proof cases
      case 1
      then show thesis using bs by (simp add: body_def)
    next
      case 2
      then show thesis using dq by (simp add: body_def)
    next
      case 3
      then show thesis using nl by (simp add: body_def)
    next
      case 4
      then show thesis using hex by (simp add: body_def z)
    qed
  next
    case sp: False
    show thesis
    proof (cases "0xF0 \<le> first (data ! 0)")
      case True
      show thesis
      proof (cases "first (data ! 0) = 0xF1")
        case x: True
        with sp ne True have "body data = (Fprintf_x02x (data ! 0), 1)"
          by (simp add: body_def Let_def DR_single)
        then show thesis by (rule hex)
      next
        case x: False
        have lt: "data ! 0 < 0x80" by (rule first_ascii[OF True x])
        show thesis
        proof (cases "ucast (data ! 0) \<noteq> RuneError \<and> (ucast (data ! 0) :: rune) \<noteq> byteOrderMark")
          case True
          with sp ne \<open>0xF0 \<le> first (data ! 0)\<close> x have "body data = ([data ! 0], 1)"
            by (simp add: body_def Let_def DR_single t1)
          with lt sp show thesis using ascii by blast
        next
          case False
          with sp ne \<open>0xF0 \<le> first (data ! 0)\<close> x have "body data = (Fprintf_x02x (data ! 0), 1)"
            by (auto simp add: body_def Let_def DR_single)
          then show thesis by (rule hex)
        qed
      qed
    next
      case nf: False
      show thesis
      proof (cases "good data")
        case g: True
        show thesis
        proof (cases "mrune data \<noteq> RuneError \<and> mrune data \<noteq> byteOrderMark")
          case True
          with sp have "body data = (take (width (data ! 0)) data, width (data ! 0))"
            by (simp add: body_def Let_def DR_good[OF g])
          with g True show thesis using multi by blast
        next
          case False
          with sp have "body data = (Fprintf_x02x (data ! 0), 1)"
            by (auto simp add: body_def Let_def DR_good[OF g])
          then show thesis by (rule hex)
        qed
      next
        case False
        with sp have "body data = (Fprintf_x02x (data ! 0), 1)"
          by (simp add: body_def Let_def DR_bad[OF ne nf False])
        then show thesis by (rule hex)
      qed
    qed
  qed
qed

lemma body_out_kinds:
  assumes ne: "data \<noteq> []"
  shows "fst (body data) = [0x5C, 0x5C] \<or> fst (body data) = [0x5C, 0x22]
     \<or> fst (body data) = [0x5C, 0x6E] \<or> fst (body data) = Fprintf_x02x (data ! 0)
     \<or> (\<forall>x \<in> set (fst (body data)). plain x)"
  using ne
proof (cases rule: body_cases)
  case ascii
  then show ?thesis by (simp add: plain_def)
next
  case multi
  then show ?thesis using good_plain[OF multi(1)] by simp
qed simp_all

lemma body_take:
  assumes ne: "data \<noteq> []" and j: "snd (body data) \<le> j"
  shows "body (take j data) = body data"
proof -
  have j1: "1 \<le> j" using body_advance[OF ne] j by simp
  have d0: "take j data ! 0 = data ! 0" using j1 by simp
  from DecodeRune_take[OF ne j1] show ?thesis
  proof
    assume e: "DecodeRune (take j data) = DecodeRune data"
    show ?thesis
    proof (cases "snd (body data) = snd (DecodeRune data)")
      case True
      with j have "take (snd (DecodeRune data)) (take j data) = take (snd (DecodeRune data)) data"
        by (simp add: min_def)
      then show ?thesis by (simp add: body_def Let_def d0 e split_beta)
    next
      case False
      then show ?thesis by (auto simp add: body_def Let_def d0 e split_beta split: if_splits)
    qed
  next
    assume e: "DecodeRune (take j data) = (RuneError, 1) \<and> j < snd (DecodeRune data)"
    with j have "snd (body data) \<noteq> snd (DecodeRune data)" by simp
    then show ?thesis using e
      by (auto simp add: body_def Let_def d0 split_beta split: if_splits)
  qed
qed

section \<open>Properties of the loop\<close>

lemma buffer_Write_fst: "fst (buffer_Write s bs) = s @ bs"
  by (simp add: buffer_Write_def)

lemma buffer_Write_snd: "snd (buffer_Write s bs) = None"
  by (simp add: buffer_Write_def)

lemma Write_loop_Nil: "Write_loop wr s [] err = (s, [], err)"
  by (simp add: Write_loop.simps)

lemma Write_loop_err: "Write_loop wr s data (Some e) = (s, data, Some e)"
  by (simp add: Write_loop.simps)

lemma Write_loop_step:
  "data \<noteq> [] \<Longrightarrow> Write_loop wr s data None =
     Write_loop wr (fst (wr s (fst (body data)))) (drop (snd (body data)) data)
       (snd (wr s (fst (body data))))"
  by (subst Write_loop.simps) (simp add: split_beta)

lemma Write_loop_buffer:
  "Write_loop (buffer_Write :: (byte list, unit) io_Writer) s data None
     = (s @ fst (Write_loop (buffer_Write :: (byte list, unit) io_Writer) [] data None), [], None)"
proof (induction data arbitrary: s rule: length_induct)
  case (1 data)
  show ?case
  proof (cases "data = []")
    case True
    then show ?thesis by (simp add: Write_loop_Nil)
  next
    case False
    let ?d = "drop (snd (body data)) data"
    have "length ?d < length data" using body_advance[OF False] False by (cases data) auto
    with 1 have ih: "\<And>t. Write_loop (buffer_Write :: (byte list, unit) io_Writer) t ?d None
        = (t @ fst (Write_loop (buffer_Write :: (byte list, unit) io_Writer) [] ?d None), [], None)"
      by blast
    show ?thesis
      by (simp add: Write_loop_step[OF False] buffer_Write_fst buffer_Write_snd ih[of "s @ fst (body data)"]
          ih[of "fst (body data)"])
  qed
qed

lemma encode_Nil: "encode [] = []"
  by (simp add: encode_def Write_def Write_loop_Nil)

lemma encode_step:
  "data \<noteq> [] \<Longrightarrow> encode data = fst (body data) @ encode (drop (snd (body data)) data)"
  by (simp add: encode_def Write_def Write_loop_step buffer_Write_fst buffer_Write_snd
      Write_loop_buffer[of "fst (body data)"] split_beta)

lemma encode_induct [case_names Nil step]:
  assumes "Q []" and "\<And>data. data \<noteq> [] \<Longrightarrow> Q (drop (snd (body data)) data) \<Longrightarrow> Q data"
  shows "Q data"
proof (induction data rule: length_induct)
  case (1 xs)
  show ?case
  proof (cases "xs = []")
    case True
    with assms(1) show ?thesis by simp
  next
    case False
    have "length (drop (snd (body xs)) xs) < length xs"
      using body_advance[OF False] False by (cases xs) auto
    with 1 have "Q (drop (snd (body xs)) xs)" by blast
    with assms(2)[OF False] show ?thesis .
  qed
qed

lemma Write_loop_buffer_encode:
  "Write_loop buffer_Write s data None = (s @ encode data, [], None)"
proof (induction data arbitrary: s rule: encode_induct)
  case Nil
  show ?case by (simp add: Write_loop_Nil encode_Nil)
next
  case (step data)
  show ?case
    by (simp add: Write_loop_step[OF step(1)] buffer_Write_fst buffer_Write_snd step(2)
        encode_step[OF step(1)])
qed

lemma Write_buffer: "Write buffer_Write s data = (s @ encode data, length data, None)"
  by (simp add: Write_def Write_loop_buffer_encode)

lemma encode_append_noncont:
  "\<not> cont c \<Longrightarrow> encode (P @ c # R) = encode P @ encode (c # R)"
proof (induction P rule: length_induct)
  case (1 P)
  show ?case
  proof (cases "P = []")
    case True
    then show ?thesis by (simp add: encode_Nil)
  next
    case False
    let ?k = "snd (body P)"
    have k: "1 \<le> ?k" "?k \<le> length P" using body_advance[OF False] by simp_all
    have b: "body (P @ c # R) = body P" by (rule body_append_noncont[OF False 1(2)])
    have "length (drop ?k P) < length P" using k False by (cases P) auto
    with 1 have ih: "encode (drop ?k P @ c # R) = encode (drop ?k P) @ encode (c # R)" by blast
    have "encode (P @ c # R) = fst (body P) @ encode (drop ?k (P @ c # R))"
      using encode_step[of "P @ c # R"] b by simp
    also have "drop ?k (P @ c # R) = drop ?k P @ c # R" using k by simp
    finally show ?thesis using ih encode_step[OF False] by simp
  qed
qed

lemma encode_Cons_special:
  "encode (0x5C # S) = [0x5C, 0x5C] @ encode S"
  "encode (0x22 # S) = [0x5C, 0x22] @ encode S"
  "encode (0x0A # S) = [0x5C, 0x6E] @ encode S"
  "encode (0x00 # S) = [0x5C, 0x78, 0x30, 0x30] @ encode S"
  by (simp_all add: encode_step body_special)

lemma encode_bom:
  "encode (0xEF # 0xBB # 0xBF # S)
     = Fprintf_x02x 0xEF @ Fprintf_x02x 0xBB @ Fprintf_x02x 0xBF @ encode S"
proof -
  have b1: "body (0xEF # 0xBB # 0xBF # S) = (Fprintf_x02x 0xEF, 1)"
    by (simp add: body_def DecodeRune_bom)
  have c: "cont 0xBB" "cont 0xBF" by (simp_all add: cont_def)
  show ?thesis
    by (simp add: encode_step b1 body_cont[OF c(1)] body_cont[OF c(2)])
qed

lemma Fprintf_x02x_bom:
  "Fprintf_x02x 0xEF = 0x5C # bytes_of ''xef''"
  "Fprintf_x02x 0xBB = 0x5C # bytes_of ''xbb''"
  "Fprintf_x02x 0xBF = 0x5C # bytes_of ''xbf''"
  by (simp_all add: Fprintf_x02x_def hexdigit_def bytes_of_def)

lemma encode_unit:
  assumes d: "DecodeRune U = (r, length U)" and k: "2 \<le> length U"
    and nb: "r \<noteq> byteOrderMark" and nr: "r \<noteq> RuneError"
  shows "encode (U @ S) = U @ encode S"
proof -
  from multi_is_good[OF d k] have g: "good U" and w: "length U = width (U ! 0)" by simp_all
  have ne: "U \<noteq> []" using k by auto
  have u0: "(U @ S) ! 0 = U ! 0" using ne by (cases U) simp_all
  have "DecodeRune (take (width (U ! 0)) U @ S) = DecodeRune U" by (rule DecodeRune_take_append[OF g])
  with w d have dr: "DecodeRune (U @ S) = (r, length U)" by simp
  have "plain (U ! 0)" using good_lead[OF g] by (intro high_is_plain lead_high)
  then have "body (U @ S) = (U, length U)"
    using nb nr by (simp add: body_def Let_def u0 dr plain_def)
  then show ?thesis using ne by (simp add: encode_step)
qed

lemma encode_examples:
  "encode [] = []"
  "encode (bytes_of ''hi'' @ [0x0A, 0x22] @ bytes_of ''!'')
     = bytes_of ''hi'' @ [0x5C] @ bytes_of ''n'' @ [0x5C, 0x22] @ bytes_of ''!''"
  "encode [0xE2, 0x82, 0xAC] = [0xE2, 0x82, 0xAC]"
  "encode [0x80] = 0x5C # bytes_of ''x80''"
  by (simp_all add: encode_Nil encode_step body_def DecodeRune_def first_def acceptRanges_def
      RuneError_def byteOrderMark_def Fprintf_x02x_def hexdigit_def bytes_of_def)

lemma Write_loop_length: "length (fst (snd (Write_loop wr s data err))) \<le> length data"
proof (cases err)
  case (Some e)
  then show ?thesis by (simp add: Write_loop_err)
next
  case None
  have "length (fst (snd (Write_loop wr s data None))) \<le> length data"
  proof (induction data arbitrary: s rule: encode_induct)
    case Nil
    show ?case by (simp add: Write_loop_Nil)
  next
    case (step data)
    let ?s1 = "fst (wr s (fst (body data)))"
    let ?d = "drop (snd (body data)) data"
    show ?case
    proof (cases "snd (wr s (fst (body data)))")
      case None
      with step(2)[of ?s1] show ?thesis by (simp add: Write_loop_step[OF step(1)])
    next
      case (Some e)
      then show ?thesis by (simp add: Write_loop_step[OF step(1)] Write_loop_err)
    qed
  qed
  with None show ?thesis by simp
qed

lemma Write_Nil: "Write wr s [] = (s, 0, None)"
  by (simp add: Write_def Write_loop_Nil)

lemma Write_step_fail:
  assumes ne: "data \<noteq> []" and w: "wr s (fst (body data)) = (s1, Some e)"
  shows "Write wr s data = (s1, snd (body data), Some e)"
proof -
  have "snd (body data) \<le> length data" using body_advance[OF ne] by simp
  then show ?thesis
    by (simp add: Write_def Write_loop_step[OF ne] w Write_loop_err)
qed

lemma Write_step_ok:
  assumes ne: "data \<noteq> []" and w: "wr s (fst (body data)) = (s1, None)"
    and r: "Write wr s1 (drop (snd (body data)) data) = (s', n', err)"
  shows "Write wr s data = (s', snd (body data) + n', err)"
proof -
  let ?k = "snd (body data)"
  let ?L = "Write_loop wr s1 (drop ?k data) None"
  have k: "?k \<le> length data" using body_advance[OF ne] by simp
  have l: "length (fst (snd ?L)) \<le> length data - ?k"
    using Write_loop_length[of wr s1 "drop ?k data" None] by simp
  from r have "fst ?L = s'" "n' = length data - ?k - length (fst (snd ?L))" "snd (snd ?L) = err"
    by (simp_all add: Write_def split_beta)
  moreover have "length data - length (fst (snd ?L)) = ?k + (length data - ?k - length (fst (snd ?L)))"
    using k l by arith
  ultimately show ?thesis
    by (simp add: Write_def Write_loop_step[OF ne] w split_beta)
qed

lemma Write_None_length: "Write wr s data = (s', n, None) \<Longrightarrow> n = length data"
proof (induction data arbitrary: s s' n rule: encode_induct)
  case Nil
  then show ?case by (simp add: Write_Nil)
next
  case (step data)
  let ?k = "snd (body data)"
  obtain s1 e1 where w: "wr s (fst (body data)) = (s1, e1)" by (cases "wr s (fst (body data))")
  show ?case
  proof (cases e1)
    case (Some e)
    with Write_step_fail[OF step(1), of wr s s1 e] w step(3) show ?thesis by simp
  next
    case None
    obtain s2 n2 err2 where r: "Write wr s1 (drop ?k data) = (s2, n2, err2)"
      by (cases "Write wr s1 (drop ?k data)")
    from Write_step_ok[OF step(1) _ r, of s] w None step(3)
    have "err2 = None" "n = ?k + n2" by simp_all
    with step(2)[of s1 s2 n2] r have "n = ?k + length (drop ?k data)" by simp
    with body_advance[OF step(1)] show ?thesis by simp
  qed
qed

lemma Write_all_succeed:
  assumes ok: "\<forall>t bs. snd (wr t bs) = None"
  shows "snd (snd (Write wr s data)) = None"
proof (induction data arbitrary: s rule: encode_induct)
  case Nil
  show ?case by (simp add: Write_Nil)
next
  case (step data)
  let ?k = "snd (body data)"
  obtain s1 where w: "wr s (fst (body data)) = (s1, None)"
    using ok by (cases "wr s (fst (body data))") (metis snd_conv)
  obtain s2 n2 err2 where r: "Write wr s1 (drop ?k data) = (s2, n2, err2)"
    by (cases "Write wr s1 (drop ?k data)")
  from step(2)[of s1] r have "err2 = None" by simp
  with Write_step_ok[OF step(1) w r] show ?case by simp
qed

lemma Write_Some_unit:
  "Write wr s data = (s', n, Some e) \<Longrightarrow>
     \<exists>m s0. m < n \<and> n \<le> length data \<and> Write wr s (take m data) = (s0, m, None)
       \<and> n = m + snd (body (drop m data))
       \<and> wr s0 (fst (body (drop m data))) = (s', Some e)"
proof (induction data arbitrary: s s' n rule: encode_induct)
  case Nil
  then show ?case by (simp add: Write_Nil)
next
  case (step data)
  let ?k = "snd (body data)"
  have k: "1 \<le> ?k" "?k \<le> length data" using body_advance[OF step(1)] by simp_all
  obtain s1 e1 where w: "wr s (fst (body data)) = (s1, e1)" by (cases "wr s (fst (body data))")
  show ?case
  proof (cases e1)
    case (Some e')
    with Write_step_fail[OF step(1), of wr s s1 e'] w step(3)
    have "s' = s1" "n = ?k" "e = e'" by simp_all
    with w Some k have "0 < n \<and> n \<le> length data \<and> Write wr s (take 0 data) = (s, 0, None)
       \<and> n = 0 + snd (body (drop 0 data)) \<and> wr s (fst (body (drop 0 data))) = (s', Some e)"
      by (simp add: Write_Nil)
    then show ?thesis by blast
  next
    case None
    obtain s2 n2 err2 where r: "Write wr s1 (drop ?k data) = (s2, n2, err2)"
      by (cases "Write wr s1 (drop ?k data)")
    from Write_step_ok[OF step(1) _ r, of s] w None step(3)
    have eq: "s2 = s'" "n = ?k + n2" "err2 = Some e" by simp_all
    with step(2)[of s1 s' n2] r obtain m s0 where
      ih: "m < n2" "n2 \<le> length (drop ?k data)"
        "Write wr s1 (take m (drop ?k data)) = (s0, m, None)"
        "n2 = m + snd (body (drop m (drop ?k data)))"
        "wr s0 (fst (body (drop m (drop ?k data)))) = (s', Some e)"
      by blast
    let ?t = "take (?k + m) data"
    have tne: "?t \<noteq> []" using step(1) k by (cases data) auto
    have bt: "body ?t = body data" by (rule body_take[OF step(1)]) simp
    have dt: "drop ?k ?t = take m (drop ?k data)" by (simp add: drop_take)
    have "Write wr s ?t = (s0, ?k + m, None)"
      using Write_step_ok[OF tne, of wr s s1 s0 m None] w None ih(3) bt dt by simp
    moreover have "drop (?k + m) data = drop m (drop ?k data)" by (simp add: add.commute)
    ultimately have "?k + m < n \<and> n \<le> length data \<and> Write wr s (take (?k + m) data) = (s0, ?k + m, None)
       \<and> n = (?k + m) + snd (body (drop (?k + m) data))
       \<and> wr s0 (fst (body (drop (?k + m) data))) = (s', Some e)"
      using ih eq k by simp
    then show ?thesis by blast
  qed
qed

lemma encode_lead:
  assumes nc: "\<not> cont b" and hi: "0x80 \<le> b"
  shows "encode (P @ b # S) =
     encode P @
       (if fst (DecodeRune (b # S)) \<noteq> RuneError \<and> fst (DecodeRune (b # S)) \<noteq> byteOrderMark
        then take (snd (DecodeRune (b # S))) (b # S)
               @ encode (drop (snd (DecodeRune (b # S))) (b # S))
        else Fprintf_x02x b @ encode S)"
proof -
  have p: "b \<noteq> 0x5C \<and> b \<noteq> 0x22 \<and> b \<noteq> 0x0A \<and> b \<noteq> 0x00" using high_plain[OF hi] by simp
  have "body (b # S) =
      (if fst (DecodeRune (b # S)) \<noteq> RuneError \<and> fst (DecodeRune (b # S)) \<noteq> byteOrderMark
       then (take (snd (DecodeRune (b # S))) (b # S), snd (DecodeRune (b # S)))
       else (Fprintf_x02x b, 1))"
    using p by (simp add: body_def Let_def split_beta)
  then have "encode (b # S) =
       (if fst (DecodeRune (b # S)) \<noteq> RuneError \<and> fst (DecodeRune (b # S)) \<noteq> byteOrderMark
        then take (snd (DecodeRune (b # S))) (b # S)
               @ encode (drop (snd (DecodeRune (b # S))) (b # S))
        else Fprintf_x02x b @ encode S)"
    by (simp add: encode_step)
  with encode_append_noncont[OF nc, of P S] show ?thesis by simp
qed

lemma encode_cont: "cont b \<Longrightarrow> encode (b # S) = Fprintf_x02x b @ encode S"
  by (simp add: encode_step body_cont)

lemma encode_replacement:
  "encode (P @ 0xEF # 0xBF # 0xBD # S)
     = encode P @ (0x5C # bytes_of ''xef'') @ (0x5C # bytes_of ''xbf'')
         @ (0x5C # bytes_of ''xbd'') @ encode S"
proof -
  have d: "DecodeRune (0xEF # 0xBF # 0xBD # S) = (RuneError, 3)"
    by (simp add: DecodeRune_def first_def acceptRanges_def RuneError_def)
  have b1: "body (0xEF # 0xBF # 0xBD # S) = (Fprintf_x02x 0xEF, 1)"
    by (simp add: body_def d)
  have c: "cont 0xBF" "cont 0xBD" by (simp_all add: cont_def)
  have "encode (0xEF # 0xBF # 0xBD # S)
      = (0x5C # bytes_of ''xef'') @ (0x5C # bytes_of ''xbf'') @ (0x5C # bytes_of ''xbd'') @ encode S"
    by (simp add: encode_step b1 encode_cont[OF c(1)] encode_cont[OF c(2)]
        Fprintf_x02x_def hexdigit_def bytes_of_def)
  with encode_append_noncont[of "0xEF" P "0xBF # 0xBD # S"] show ?thesis
    by (simp add: cont_simps)
qed

lemma Write_prefix_fail:
  assumes nc: "\<not> cont c"
  shows "Write wr s pre = (s0, length pre, None) \<Longrightarrow> wr s0 (fst (body (c # R))) = (s1, Some e)
    \<Longrightarrow> Write wr s (pre @ c # R) = (s1, length pre + snd (body (c # R)), Some e)"
proof (induction pre arbitrary: s rule: encode_induct)
  case Nil
  then have "s0 = s" by (simp add: Write_Nil)
  with Nil(2) Write_step_fail[of "c # R" wr s s1 e] show ?case by simp
next
  case (step pre)
  let ?k = "snd (body pre)"
  have k: "1 \<le> ?k" "?k \<le> length pre" using body_advance[OF step(1)] by simp_all
  have b: "body (pre @ c # R) = body pre" by (rule body_append_noncont[OF step(1) nc])
  obtain t e1 where w: "wr s (fst (body pre)) = (t, e1)" by (cases "wr s (fst (body pre))")
  have e1: "e1 = None"
  proof (cases e1)
    case (Some e')
    with Write_step_fail[OF step(1), of wr s t e'] w step(3) show ?thesis by simp
  qed simp
  obtain s2 n2 err2 where r: "Write wr t (drop ?k pre) = (s2, n2, err2)"
    by (cases "Write wr t (drop ?k pre)")
  from Write_step_ok[OF step(1) _ r, of s] w e1 step(3)
  have eq: "s2 = s0" "err2 = None" by simp_all
  with r Write_None_length[of wr t "drop ?k pre" s0 n2] have "n2 = length (drop ?k pre)" by simp
  with r eq have "Write wr t (drop ?k pre) = (s0, length (drop ?k pre), None)" by simp
  from step(2)[OF this step(4)]
  have ih: "Write wr t (drop ?k pre @ c # R)
      = (s1, length (drop ?k pre) + snd (body (c # R)), Some e)" .
  have ne: "pre @ c # R \<noteq> []" by simp
  have d: "drop ?k (pre @ c # R) = drop ?k pre @ c # R" using k by simp
  from Write_step_ok[OF ne, of wr s t s1 "length (drop ?k pre) + snd (body (c # R))" "Some e"]
    w e1 b d ih
  have "Write wr s (pre @ c # R)
      = (s1, ?k + (length (drop ?k pre) + snd (body (c # R))), Some e)" by simp
  with k show ?case by simp
qed

lemma body_unit2: "body [0xC3, 0xA9, 0x62] = ([0xC3, 0xA9], 2)"
  by (simp add: body_def DecodeRune_def first_def acceptRanges_def RuneError_def byteOrderMark_def)

lemma quota_fail: "Write quota_Write (0, X) [0xC3, 0xA9, 0x62] = ((0, X), 2, Some ''write failed'')"
  using Write_step_fail[of "[0xC3, 0xA9, 0x62]" quota_Write "(0, X)" "(0, X)" "''write failed''"]
  by (simp add: body_unit2 quota_Write_def)

lemma quota_ok: "Write quota_Write (1, []) [0x61] = ((0, [0x61]), 1, None)"
  using Write_step_ok[of "[0x61]" quota_Write "(1, [])" "(0, [0x61])" "(0, [0x61])" 0 None]
  by (simp add: body_a quota_Write_def Write_Nil)

section \<open>Properties of the emitted text\<close>

subsection \<open>Reading it back\<close>

lemma gsv_plain:
  "c \<noteq> 0x5C \<Longrightarrow> c \<noteq> 0x22 \<Longrightarrow> c \<noteq> 0x0A \<Longrightarrow>
     go_string_value (c # xs) = map_option ((#) c) (go_string_value xs)"
  by (cases xs) simp_all

lemma gsv_high: "0x80 \<le> c \<Longrightarrow> go_string_value (c # xs) = map_option ((#) c) (go_string_value xs)"
  using high_plain[of c] by (simp add: gsv_plain)

lemma gsv_escapes:
  "go_string_value (0x5C # 0x5C # xs) = map_option ((#) 0x5C) (go_string_value xs)"
  "go_string_value (0x5C # 0x22 # xs) = map_option ((#) 0x22) (go_string_value xs)"
  "go_string_value (0x5C # 0x6E # xs) = map_option ((#) 0x0A) (go_string_value xs)"
  by (simp_all add: simple_escape_def octval_def)

lemma gsv_hex: "go_string_value (Fprintf_x02x b @ xs) = map_option ((#) b) (go_string_value xs)"
proof -
  have d: "unat b div 16 < 16" "unat b mod 16 < 16"
    using unsigned_less[of b, where 'a=nat] by simp_all
  have "(of_nat (16 * (unat b div 16) + unat b mod 16) :: byte) = b" by simp
  then show ?thesis
    using hexdigit_props[OF d(1)] hexdigit_props[OF d(2)]
    by (simp add: Fprintf_x02x_def)
qed

declare go_string_value.simps(3) [simp del]

lemma map_option_append_Cons: "map_option ((#) c) m = map_option ((@) [c]) m"
  by (cases m) simp_all

lemma gsv_body:
  assumes ne: "data \<noteq> []"
  shows "go_string_value (fst (body data) @ xs)
    = map_option ((@) (take (snd (body data)) data)) (go_string_value xs)"
proof -
  have t1: "take (Suc 0) data = [data ! 0]" using ne by (cases data) simp_all
  from ne show ?thesis
  proof (cases rule: body_cases)
    case bs
    then show ?thesis by (simp add: gsv_escapes t1 map_option_append_Cons)
  next
    case dq
    then show ?thesis by (simp add: gsv_escapes t1 map_option_append_Cons)
  next
    case nl
    then show ?thesis by (simp add: gsv_escapes t1 map_option_append_Cons)
  next
    case hex
    then show ?thesis by (simp add: gsv_hex t1 map_option_append_Cons)
  next
    case ascii
    then show ?thesis by (simp add: gsv_plain t1 map_option_append_Cons)
  next
    case multi
    have h0: "0x80 \<le> data ! 0" using good_lead[OF multi(1)] by (rule lead_high)
    have h1: "0x80 \<le> data ! 1" using good_second[OF multi(1)] by (rule cont_high)
    from good_take[OF multi(1)] show ?thesis
    proof (elim disjE conjE)
      assume "width (data ! 0) = 2" and tk: "take (width (data ! 0)) data = [data ! 0, data ! 1]"
      then show ?thesis using multi(2) h0 h1
        by (cases "go_string_value xs") (simp_all add: gsv_high)
    next
      assume "width (data ! 0) = 3"
        and tk: "take (width (data ! 0)) data = [data ! 0, data ! 1, data ! 2]"
        and "cont (data ! 2)"
      then show ?thesis using multi(2) h0 h1
        by (cases "go_string_value xs") (simp_all add: gsv_high cont_high)
    next
      assume "width (data ! 0) = 4"
        and tk: "take (width (data ! 0)) data = [data ! 0, data ! 1, data ! 2, data ! 3]"
        and "cont (data ! 2)" "cont (data ! 3)"
      then show ?thesis using multi(2) h0 h1
        by (cases "go_string_value xs") (simp_all add: gsv_high cont_high)
    qed
  qed
qed

subsection \<open>Valid UTF-8\<close>

lemma Valid_Nil: "Valid []"
  by (simp add: Valid.simps)

lemma Valid_ascii: "a < 0x80 \<Longrightarrow> Valid (a # xs) = Valid xs"
proof -
  assume a: "a < 0x80"
  then have f: "first a = 0xF0" by (simp add: first_def)
  have "DecodeRune (a # xs) = (ucast a, 1)" by (simp add: DR_single f)
  then show ?thesis by (subst Valid.simps) (simp add: ucast_byte_not_RuneError)
qed

lemma Valid_ascii_append: "\<forall>x \<in> set u. x < 0x80 \<Longrightarrow> Valid (u @ xs) = Valid xs"
  by (induction u) (simp_all add: Valid_ascii)

lemma Valid_good: "good p \<Longrightarrow> Valid (take (width (p ! 0)) p @ xs) = Valid xs"
proof -
  assume g: "good p"
  let ?u = "take (width (p ! 0)) p"
  have w: "2 \<le> width (p ! 0)" "width (p ! 0) \<le> length p" using good_width[OF g] by simp_all
  have d: "DecodeRune (?u @ xs) = (mrune p, width (p ! 0))"
    using DecodeRune_take_append[OF g, of xs] DR_good[OF g] by simp
  have ne: "(?u @ xs = []) = False" using w by auto
  have l: "length ?u = width (p ! 0)" using w by simp
  have "Valid (?u @ xs) = Valid (drop (width (p ! 0)) (?u @ xs))"
    using w by (subst Valid.simps) (simp only: d ne, simp)
  also have "drop (width (p ! 0)) (?u @ xs) = xs" using l by simp
  finally show ?thesis .
qed

lemma Valid_body:
  assumes ne: "data \<noteq> []"
  shows "Valid (fst (body data) @ xs) = Valid xs"
  using ne
proof (cases rule: body_cases)
  case hex
  have "\<forall>x \<in> set (Fprintf_x02x (data ! 0)). x < 0x80"
    using hex_digits_of_byte[of "data ! 0"] by (simp add: Fprintf_x02x_def)
  with hex show ?thesis by (simp add: Valid_ascii_append)
next
  case multi
  then show ?thesis by (simp add: Valid_good)
qed (simp_all add: Valid_ascii)

lemma encode_Valid: "Valid (encode B)"
proof (induction B rule: encode_induct)
  case Nil
  show ?case by (simp add: encode_Nil Valid_Nil)
next
  case (step data)
  then show ?case by (simp add: encode_step[OF step(1)] Valid_body[OF step(1)])
qed

subsection \<open>No raw newline and no raw null byte\<close>

lemma body_no_newline_null:
  assumes ne: "data \<noteq> []"
  shows "0x0A \<notin> set (fst (body data)) \<and> 0x00 \<notin> set (fst (body data))"
proof -
  from body_out_kinds[OF ne] show ?thesis
  proof (elim disjE)
    assume "fst (body data) = Fprintf_x02x (data ! 0)"
    then show ?thesis
      using hex_digits_of_byte[of "data ! 0"] by (auto simp: Fprintf_x02x_def plain_def)
  next
    assume "\<forall>x \<in> set (fst (body data)). plain x"
    then show ?thesis by (auto simp: plain_def)
  qed simp_all
qed

lemma encode_no_newline_null: "0x0A \<notin> set (encode B) \<and> 0x00 \<notin> set (encode B)"
proof (induction B rule: encode_induct)
  case Nil
  show ?case by (simp add: encode_Nil)
next
  case (step data)
  then show ?case using body_no_newline_null[OF step(1)] by (simp add: encode_step[OF step(1)])
qed

subsection \<open>No unescaped quote\<close>

lemma uq_plain: "plain c \<Longrightarrow> unescaped_quote (c # xs) = unescaped_quote xs"
  by (cases xs) (simp_all add: plain_def)

lemma uq_plain_append: "\<forall>x \<in> set u. plain x \<Longrightarrow> unescaped_quote (u @ xs) = unescaped_quote xs"
  by (induction u) (simp_all add: uq_plain)

lemma uq_hex: "unescaped_quote (Fprintf_x02x b @ xs) = unescaped_quote xs"
proof -
  have "unescaped_quote (Fprintf_x02x b @ xs)
      = unescaped_quote (hexdigit (unat b div 16) # hexdigit (unat b mod 16) # xs)"
    by (simp add: Fprintf_x02x_def)
  then show ?thesis using hex_digits_of_byte[of b] by (simp only: uq_plain)
qed

lemma uq_body:
  assumes "data \<noteq> []"
  shows "unescaped_quote (fst (body data) @ xs) = unescaped_quote xs"
  using body_out_kinds[OF assms] by (elim disjE) (simp_all add: uq_hex uq_plain_append)

lemma encode_no_unescaped_quote: "\<not> unescaped_quote (encode B)"
proof (induction B rule: encode_induct)
  case Nil
  show ?case by (simp add: encode_Nil)
next
  case (step data)
  then show ?case by (simp add: encode_step[OF step(1)] uq_body[OF step(1)])
qed

subsection \<open>Every backslash starts one of the four escapes\<close>

lemma ew_plain: "plain c \<Longrightarrow> escapes_wellformed (c # xs) = escapes_wellformed xs"
  by (cases xs) (simp_all add: plain_def)

lemma ew_plain_append:
  "\<forall>x \<in> set u. plain x \<Longrightarrow> escapes_wellformed (u @ xs) = escapes_wellformed xs"
  by (induction u) (simp_all add: ew_plain)

lemma ew_hex: "escapes_wellformed (Fprintf_x02x b @ xs) = escapes_wellformed xs"
  using hex_digits_of_byte[of b] by (simp add: Fprintf_x02x_def)

lemma ew_body:
  assumes "data \<noteq> []"
  shows "escapes_wellformed (fst (body data) @ xs) = escapes_wellformed xs"
  using body_out_kinds[OF assms] by (elim disjE) (simp_all add: ew_hex ew_plain_append)

lemma encode_escapes_wellformed: "escapes_wellformed (encode B)"
proof (induction B rule: encode_induct)
  case Nil
  show ?case by (simp add: encode_Nil)
next
  case (step data)
  then show ?case by (simp add: encode_step[OF step(1)] ew_body[OF step(1)])
qed

subsection \<open>No raw byte order mark\<close>

lemma has_bom_skip: "a \<noteq> 0xEF \<Longrightarrow> has_bom (a # xs) = has_bom xs"
  by (cases xs; cases "tl xs") auto

lemma has_bom_append: "\<forall>x \<in> set u. x \<noteq> 0xEF \<Longrightarrow> has_bom (u @ xs) = has_bom xs"
  by (induction u) (simp_all add: has_bom_skip)

lemma has_bom_hex: "has_bom (Fprintf_x02x b @ xs) = has_bom xs"
proof -
  have "\<forall>x \<in> set (Fprintf_x02x b). x \<noteq> 0xEF"
    using hex_digits_of_byte[of b] by (auto simp: Fprintf_x02x_def)
  then show ?thesis by (rule has_bom_append)
qed

lemma has_bom_body:
  assumes ne: "data \<noteq> []"
  shows "has_bom (fst (body data) @ xs) = has_bom xs"
  using ne
proof (cases rule: body_cases)
  case hex
  then show ?thesis by (simp add: has_bom_hex)
next
  case ascii
  then show ?thesis by (simp add: has_bom_skip low_not_EF)
next
  case multi
  have n1: "data ! 1 \<noteq> 0xEF" using good_second[OF multi(1)] by (rule cont_not_EF)
  have nb: "\<not> (data ! 0 = 0xEF \<and> data ! 1 = 0xBB \<and> data ! 2 = 0xBF)"
    by (rule good_not_bom[OF multi(1) multi(4)])
  have wEF: "width 0xEF = 3" by (simp add: width_def first_def)
  from good_take[OF multi(1)] show ?thesis
  proof (elim disjE conjE)
    assume w: "width (data ! 0) = 2" and tk: "take (width (data ! 0)) data = [data ! 0, data ! 1]"
    from w wEF have "data ! 0 \<noteq> 0xEF" by auto
    with tk show ?thesis using multi(2) n1
      by (simp add: has_bom_skip)
  next
    assume "width (data ! 0) = 3"
      and tk: "take (width (data ! 0)) data = [data ! 0, data ! 1, data ! 2]"
      and c2: "cont (data ! 2)"
    then show ?thesis using multi(2) n1 nb cont_not_EF[OF c2]
      by (auto simp: has_bom_skip)
  next
    assume w: "width (data ! 0) = 4"
      and tk: "take (width (data ! 0)) data = [data ! 0, data ! 1, data ! 2, data ! 3]"
      and c2: "cont (data ! 2)" and c3: "cont (data ! 3)"
    from w wEF have "data ! 0 \<noteq> 0xEF" by auto
    with tk show ?thesis using multi(2) n1 cont_not_EF[OF c2] cont_not_EF[OF c3]
      by (simp add: has_bom_skip)
  qed
qed (simp_all add: has_bom_skip)

lemma encode_no_bom: "\<not> has_bom (encode B)"
proof (induction B rule: encode_induct)
  case Nil
  show ?case by (simp add: encode_Nil)
next
  case (step data)
  then show ?case by (simp add: encode_step[OF step(1)] has_bom_body[OF step(1)])
qed

section \<open>Properties of the generator\<close>

lemma Printf_buffer: "Printf buffer_Write s t = s @ t"
  by (simp add: Printf_def buffer_Write_fst)

lemma write_all_buffer: "write_all buffer_Write s ts = (s @ concat ts, None)"
  by (induction ts arbitrary: s) (simp_all add: buffer_Write_def)

lemma Execute_buffer:
  "gzipPrologue_Execute buffer_Write s v =
     (s @ gzipPrologue_imports @ gzipPrologue_init1 @ v @ gzipPrologue_init2 @ v
        @ gzipPrologue_init3, None)"
  by (simp add: gzipPrologue_Execute_def write_all_buffer del: write_all.simps)

lemma copy_and_close_buffer:
  \<open>copy_and_close buffer_Write s raw = (s @ encode raw @ bytes_of ''")'' @ nl, Returned)\<close>
  by (simp add: copy_and_close_def Write_buffer Printf_buffer)

lemma main_plain_buffer:
  assumes "\<not> gzipFlag fl"
  shows \<open>main buffer_Write gzip_best fl (Inr raw) s0 =
     (s0 @ (bytes_of ''package '' @ packageFlag fl @ nl @ nl)
         @ (bytes_of ''var '' @ varFlag fl @ bytes_of '' = []byte("'' @ encode raw
              @ bytes_of ''")'' @ nl),
      Returned)\<close>
  using assms by (simp add: main_def Printf_buffer copy_and_close_buffer)

lemma main_gzip_buffer:
  assumes "gzipFlag fl" and "gzip_best raw = Inr gz"
  shows \<open>main buffer_Write gzip_best fl (Inr raw) s0 =
     (s0 @ (bytes_of ''package '' @ packageFlag fl @ nl @ nl)
         @ gzipPrologue_imports
         @ (gzipPrologue_init1 @ varFlag fl @ gzipPrologue_init2 @ varFlag fl @ gzipPrologue_init3)
         @ (bytes_of ''var '' @ varFlag fl @ bytes_of '' []byte // set in init'' @ nl @ nl)
         @ (bytes_of ''var '' @ varFlag fl @ bytes_of ''_gzip = []byte("'' @ encode gz
              @ bytes_of ''")'' @ nl),
      Returned)\<close>
  using assms
  by (simp add: main_def Printf_buffer copy_and_close_buffer Execute_buffer)

lemma main_plain_returns:
  "\<not> gzipFlag fl \<Longrightarrow> snd (main stdout gzip_best fl (Inr raw) s0) = Returned"
  by (simp add: main_def copy_and_close_def Let_def)

section \<open>The claims\<close>

text \<open>
  Claim C1: for every byte sequence \<open>B\<close>, empty or not and whatever byte values it holds,
  the text the encoder produces for \<open>B\<close> is valid UTF-8 and, read as the body of a Go
  interpreted string literal, has the value \<open>B\<close>.
\<close>

theorem encode_round_trip: "go_string_value (encode B) = Some B \<and> Valid (encode B)"
proof -
  have "go_string_value (encode B) = Some B"
  proof (induction B rule: encode_induct)
    case Nil
    show ?case by (simp add: encode_Nil)
  next
    case (step data)
    have "go_string_value (encode data)
        = map_option ((@) (take (snd (body data)) data))
            (go_string_value (encode (drop (snd (body data)) data)))"
      by (simp add: encode_step[OF step(1)] gsv_body[OF step(1)])
    with step(2) show ?case by simp
  qed
  then show ?thesis using encode_Valid[of B] by simp
qed

text \<open>
  Claim C2: the emitted text never holds a raw newline, a raw null byte, the raw byte order
  mark (the bytes EF BB BF) or a double quote outside an escape; a newline, a quote, a null
  byte and the bytes of a byte order mark in the input are each replaced by an escape.
\<close>

theorem encode_legal:
  "0x0A \<notin> set (encode B) \<and> 0x00 \<notin> set (encode B) \<and> \<not> has_bom (encode B)
   \<and> \<not> unescaped_quote (encode B)
   \<and> encode (P @ 0x0A # S) = encode P @ (0x5C # bytes_of ''n'') @ encode S
   \<and> encode (P @ 0x22 # S) = encode P @ [0x5C, 0x22] @ encode S
   \<and> encode (P @ 0x00 # S) = encode P @ (0x5C # bytes_of ''x00'') @ encode S
   \<and> encode (P @ 0xEF # 0xBB # 0xBF # S)
       = encode P @ (0x5C # bytes_of ''xef'') @ (0x5C # bytes_of ''xbb'')
           @ (0x5C # bytes_of ''xbf'') @ encode S"
proof -
  have nl: "encode (P @ 0x0A # S) = encode P @ (0x5C # bytes_of ''n'') @ encode S"
    using encode_append_noncont[of "0x0A" P S]
    by (simp add: cont_simps encode_Cons_special bytes_of_def)
  have dq: "encode (P @ 0x22 # S) = encode P @ [0x5C, 0x22] @ encode S"
    using encode_append_noncont[of "0x22" P S] by (simp add: cont_simps encode_Cons_special)
  have nul: "encode (P @ 0x00 # S) = encode P @ (0x5C # bytes_of ''x00'') @ encode S"
    using encode_append_noncont[of "0x00" P S]
    by (simp add: cont_simps encode_Cons_special bytes_of_def)
  have bom: "encode (P @ 0xEF # 0xBB # 0xBF # S)
       = encode P @ (0x5C # bytes_of ''xef'') @ (0x5C # bytes_of ''xbb'')
           @ (0x5C # bytes_of ''xbf'') @ encode S"
    using encode_append_noncont[of "0xEF" P "0xBB # 0xBF # S"]
    by (simp add: cont_simps encode_bom Fprintf_x02x_bom)
  from encode_no_newline_null[of B] encode_no_bom[of B] encode_no_unescaped_quote[of B]
    nl dq nul bom
  show ?thesis by blast
qed

text \<open>
  Claim C3, as amended: a valid multi-byte UTF-8 sequence that encodes a code point other
  than U+FEFF and U+FFFD is copied to the output as it is, wherever it stands in the input,
  so none of its bytes is escaped on its own. On the side of the escapes: a byte from 0x80
  upwards that is not a continuation byte is hex-escaped, wherever it stands, exactly when
  \<open>DecodeRune\<close> from that byte on reports U+FFFD (the byte starts no valid sequence, or
  starts the replacement character itself) or U+FEFF; a continuation byte at the head of
  the input is hex-escaped; and the bytes EF BF BD of U+FFFD are each hex-escaped.
\<close>

theorem valid_unit_passes_through:
  "(DecodeRune U = (r, length U) \<and> 2 \<le> length U \<and> r \<noteq> byteOrderMark \<and> r \<noteq> RuneError
      \<longrightarrow> encode (P @ U @ S) = encode P @ U @ encode S)
   \<and> (\<not> cont b \<and> 0x80 \<le> b \<longrightarrow>
        encode (P @ b # S) =
          encode P @
            (if fst (DecodeRune (b # S)) \<noteq> RuneError \<and> fst (DecodeRune (b # S)) \<noteq> byteOrderMark
             then take (snd (DecodeRune (b # S))) (b # S)
                    @ encode (drop (snd (DecodeRune (b # S))) (b # S))
             else Fprintf_x02x b @ encode S))
   \<and> (cont c \<longrightarrow> encode (c # S) = Fprintf_x02x c @ encode S)
   \<and> encode (P @ 0xEF # 0xBF # 0xBD # S)
        = encode P @ (0x5C # bytes_of ''xef'') @ (0x5C # bytes_of ''xbf'')
            @ (0x5C # bytes_of ''xbd'') @ encode S"
proof (intro conjI impI)
  assume a: "DecodeRune U = (r, length U) \<and> 2 \<le> length U \<and> r \<noteq> byteOrderMark \<and> r \<noteq> RuneError"
  then have d: "DecodeRune U = (r, length U)" and k: "2 \<le> length U"
    and nb: "r \<noteq> byteOrderMark" and nr: "r \<noteq> RuneError" by simp_all
  from multi_is_good[OF d k] have g: "good U" by simp
  obtain u0 U' where U: "U = u0 # U'" using k by (cases U) auto
  have "\<not> cont u0" using good_lead[OF g] U by (auto simp: cont_def word_le_nat_alt)
  then have "encode (P @ u0 # U' @ S) = encode P @ encode (u0 # U' @ S)"
    by (rule encode_append_noncont)
  with encode_unit[OF d k nb nr, of S] U
  show "encode (P @ U @ S) = encode P @ U @ encode S" by simp
next
  assume "\<not> cont b \<and> 0x80 \<le> b"
  then show "encode (P @ b # S) =
          encode P @
            (if fst (DecodeRune (b # S)) \<noteq> RuneError \<and> fst (DecodeRune (b # S)) \<noteq> byteOrderMark
             then take (snd (DecodeRune (b # S))) (b # S)
                    @ encode (drop (snd (DecodeRune (b # S))) (b # S))
             else Fprintf_x02x b @ encode S)"
    using encode_lead[of b P S] by simp
next
  assume "cont c"
  then show "encode (c # S) = Fprintf_x02x c @ encode S" by (rule encode_cont)
next
  show "encode (P @ 0xEF # 0xBF # 0xBD # S)
        = encode P @ (0x5C # bytes_of ''xef'') @ (0x5C # bytes_of ''xbf'')
            @ (0x5C # bytes_of ''xbd'') @ encode S"
    by (rule encode_replacement)
qed

theorem valid_unit_passes_through_witness:
  "DecodeRune [0xC3, 0xA9] = (0xE9, length [0xC3, 0xA9 :: byte]) \<and> 2 \<le> length [0xC3, 0xA9 :: byte]
   \<and> (0xE9 :: rune) \<noteq> byteOrderMark \<and> (0xE9 :: rune) \<noteq> RuneError
   \<and> encode ([0x41] @ [0xC3, 0xA9] @ [0x80]) = encode [0x41] @ [0xC3, 0xA9] @ encode [0x80]
   \<and> \<not> cont 0xE2 \<and> (0x80 :: byte) \<le> 0xE2
   \<and> encode ([0x41] @ 0xE2 # [0x41]) = encode [0x41] @ Fprintf_x02x 0xE2 @ encode [0x41]
   \<and> cont 0x80
   \<and> encode (0x80 # [0x41]) = Fprintf_x02x 0x80 @ encode [0x41]"
proof -
  have d: "DecodeRune [0xC3, 0xA9] = (0xE9, length [0xC3, 0xA9 :: byte])"
    by (simp add: DecodeRune_def first_def acceptRanges_def)
  have d2: "DecodeRune [0xE2, 0x41] = (RuneError, 1)"
    by (simp add: DecodeRune_def first_def acceptRanges_def)
  have r: "(0xE9 :: rune) \<noteq> byteOrderMark" "(0xE9 :: rune) \<noteq> RuneError"
    by (simp_all add: byteOrderMark_def RuneError_def)
  have c: "\<not> cont 0xE2" "(0x80 :: byte) \<le> 0xE2" "cont 0x80" by (simp_all add: cont_def)
  from valid_unit_passes_through[of "[0xC3, 0xA9]" "0xE9" "[0x41]" "[0x80]" "0xE2" "0x80"] d r
  have 1: "encode ([0x41] @ [0xC3, 0xA9] @ [0x80]) = encode [0x41] @ [0xC3, 0xA9] @ encode [0x80]"
    by simp
  from valid_unit_passes_through[of "[0xC3, 0xA9]" "0xE9" "[0x41]" "[0x41]" "0xE2" "0x80"] c d2
  have 2: "encode ([0x41] @ 0xE2 # [0x41]) = encode [0x41] @ Fprintf_x02x 0xE2 @ encode [0x41]"
    and 3: "encode (0x80 # [0x41]) = Fprintf_x02x 0x80 @ encode [0x41]"
    by simp_all
  from d r c 1 2 3 show ?thesis by simp
qed

text \<open>
  The claim C3 as it was stated fails for U+FFFD: its encoding EF BF BD is a valid three-byte
  sequence and not the byte order mark, yet each of its bytes is hex-escaped.
\<close>

theorem replacement_character_escaped:
  "DecodeRune [0xEF, 0xBF, 0xBD] = (0xFFFD, 3) \<and> (0xFFFD :: rune) \<noteq> byteOrderMark
   \<and> encode ([] @ [0xEF, 0xBF, 0xBD] @ []) \<noteq> encode [] @ [0xEF, 0xBF, 0xBD] @ encode []
   \<and> encode [0xEF, 0xBF, 0xBD]
       = (0x5C # bytes_of ''xef'') @ (0x5C # bytes_of ''xbf'') @ (0x5C # bytes_of ''xbd'')"
proof -
  have d: "DecodeRune [0xEF, 0xBF, 0xBD] = (0xFFFD, 3)"
    by (simp add: DecodeRune_def first_def acceptRanges_def)
  have b1: "body [0xEF, 0xBF, 0xBD] = (Fprintf_x02x 0xEF, 1)"
    by (simp add: body_def d RuneError_def)
  have c: "cont 0xBF" "cont 0xBD" by (simp_all add: cont_def)
  have e: "encode [0xEF, 0xBF, 0xBD]
       = (0x5C # bytes_of ''xef'') @ (0x5C # bytes_of ''xbf'') @ (0x5C # bytes_of ''xbd'')"
    by (simp add: encode_step b1 body_cont[OF c(1)] body_cont[OF c(2)] encode_Nil
        Fprintf_x02x_def hexdigit_def bytes_of_def)
  then have "encode ([] @ [0xEF, 0xBF, 0xBD] @ []) \<noteq> encode [] @ [0xEF, 0xBF, 0xBD] @ encode []"
    by (simp add: encode_Nil bytes_of_def)
  with d e show ?thesis by (simp add: byteOrderMark_def)
qed

text \<open>
  Claim C5, as amended: with the gzip flag set and every write accepted, the generator
  prints, in this order, the package line, the import block, the \<open>init\<close> function that
  decompresses the \<open>_gzip\<close> variable into the target variable, the declaration of the
  target variable without a value, and last the declaration of the \<open>_gzip\<close> variable bound
  to the literal of the compressed bytes.
\<close>

theorem gzip_output_order:
  assumes "gzipFlag fl" and "gzip_best raw = Inr gz"
  shows \<open>main buffer_Write gzip_best fl (Inr raw) s0 =
     (s0 @ (bytes_of ''package '' @ packageFlag fl @ nl @ nl)
         @ gzipPrologue_imports
         @ (gzipPrologue_init1 @ varFlag fl @ gzipPrologue_init2 @ varFlag fl @ gzipPrologue_init3)
         @ (bytes_of ''var '' @ varFlag fl @ bytes_of '' []byte // set in init'' @ nl @ nl)
         @ (bytes_of ''var '' @ varFlag fl @ bytes_of ''_gzip = []byte("'' @ encode gz
              @ bytes_of ''")'' @ nl),
      Returned)\<close>
  using assms by (simp add: main_def Printf_buffer copy_and_close_buffer Execute_buffer)

theorem gzip_output_order_witness:
  \<open>gzipFlag \<lparr>packageFlag = bytes_of ''p'', varFlag = bytes_of ''v'', gzipFlag = True\<rparr>
   \<and> gzip_returning [0x1F, 0x8B] [0x61] = Inr [0x1F, 0x8B]
   \<and> main buffer_Write (gzip_returning [0x1F, 0x8B])
        \<lparr>packageFlag = bytes_of ''p'', varFlag = bytes_of ''v'', gzipFlag = True\<rparr> (Inr [0x61]) []
      = ((bytes_of ''package '' @ bytes_of ''p'' @ nl @ nl)
         @ gzipPrologue_imports
         @ (gzipPrologue_init1 @ bytes_of ''v'' @ gzipPrologue_init2 @ bytes_of ''v''
              @ gzipPrologue_init3)
         @ (bytes_of ''var '' @ bytes_of ''v'' @ bytes_of '' []byte // set in init'' @ nl @ nl)
         @ (bytes_of ''var '' @ bytes_of ''v'' @ bytes_of ''_gzip = []byte("''
              @ encode [0x1F, 0x8B] @ bytes_of ''")'' @ nl),
         Returned)\<close>
proof -
  have g: "gzip_returning [0x1F, 0x8B] [0x61] = Inr [0x1F, 0x8B]"
    by (simp add: gzip_returning_def)
  have f: "gzipFlag \<lparr>packageFlag = bytes_of ''p'', varFlag = bytes_of ''v'', gzipFlag = True\<rparr>"
    by simp
  from gzip_output_order[where gzip_best = "gzip_returning [0x1F, 0x8B]" and raw = "[0x61]"
      and ?s0.0 = "[]", OF f g] f g
  show ?thesis by simp
qed

text \<open>
  The order claimed by C5 puts the initializer after both declarations. The generator does
  not print that text: the \<open>init\<close> function is part of the prologue template and comes
  before the declarations.
\<close>

theorem initializer_not_last:
  "fst (main buffer_Write (gzip_returning [0x1F, 0x8B])
         \<lparr>packageFlag = bytes_of ''p'', varFlag = bytes_of ''v'', gzipFlag = True\<rparr> (Inr [0x61]) [])
   \<noteq> claimed_gzip_output
         \<lparr>packageFlag = bytes_of ''p'', varFlag = bytes_of ''v'', gzipFlag = True\<rparr> [0x1F, 0x8B]"
proof -
  have g: "gzip_returning [0x1F, 0x8B] [0x61] = Inr [0x1F, 0x8B]"
    by (simp add: gzip_returning_def)
  have f: "gzipFlag \<lparr>packageFlag = bytes_of ''p'', varFlag = bytes_of ''v'', gzipFlag = True\<rparr>"
    by simp
  have "hd gzipPrologue_init1 \<noteq> hd (bytes_of ''var '')"
    by (simp add: gzipPrologue_init1_def bytes_of_def)
  moreover have "gzipPrologue_init1 \<noteq> []" "bytes_of ''var '' \<noteq> []"
    by (simp_all add: gzipPrologue_init1_def bytes_of_def)
  ultimately have "gzipPrologue_init1 @ x \<noteq> bytes_of ''var '' @ y" for x y
    by (metis hd_append2)
  then show ?thesis
    by (simp add: main_gzip_buffer[where gzip_best = "gzip_returning [0x1F, 0x8B]"
          and raw = "[0x61]", OF f g] claimed_gzip_output_def)
qed

text \<open>
  Claim C6 says that a failed write to standard output during encoding ends the process
  with a non-zero status and a diagnostic. Run on an output that refuses every write, and
  on one that starts refusing while the literal is written, the generator returns
  normally: status 0, no diagnostic. The error that \<open>writer.Write\<close> returns is dropped
  with the results of \<open>io.Copy\<close>.
\<close>

theorem stdout_failure_ignored:
  "Write full_Write [] [0x61] = ([], 1, Some ''no space left on device'')
   \<and> snd (main full_Write (gzip_returning [])
        \<lparr>packageFlag = bytes_of ''p'', varFlag = bytes_of ''v'', gzipFlag = False\<rparr> (Inr [0x61]) [])
       = Returned
   \<and> exit_status (snd (main full_Write (gzip_returning [])
        \<lparr>packageFlag = bytes_of ''p'', varFlag = bytes_of ''v'', gzipFlag = False\<rparr> (Inr [0x61]) []))
       = 0
   \<and> diagnostic (snd (main full_Write (gzip_returning [])
        \<lparr>packageFlag = bytes_of ''p'', varFlag = bytes_of ''v'', gzipFlag = False\<rparr> (Inr [0x61]) []))
       = None
   \<and> snd (main quota_Write (gzip_returning [0x61])
        \<lparr>packageFlag = bytes_of ''p'', varFlag = bytes_of ''v'', gzipFlag = True\<rparr> (Inr [0x61]) (8, []))
       = Returned"
proof -
  have w: "Write full_Write [] [0x61] = ([], 1, Some ''no space left on device'')"
    using Write_step_fail[of "[0x61]" full_Write "[]" "[]" "''no space left on device''"]
    by (simp add: body_a full_Write_def)
  have p: "snd (main full_Write (gzip_returning [])
        \<lparr>packageFlag = bytes_of ''p'', varFlag = bytes_of ''v'', gzipFlag = False\<rparr> (Inr [0x61]) [])
       = Returned"
    by (simp add: main_plain_returns)
  have q: "snd (main quota_Write (gzip_returning [0x61])
        \<lparr>packageFlag = bytes_of ''p'', varFlag = bytes_of ''v'', gzipFlag = True\<rparr> (Inr [0x61]) (8, []))
       = Returned"
    by (simp add: main_def gzip_returning_def Printf_def gzipPrologue_Execute_def quota_Write_def
        copy_and_close_def Let_def)
  from w p q show ?thesis by simp
qed

text \<open>
  Claim C8: a single null byte is encoded as the four characters backslash, x, 0, 0, and
  every null byte of any input is replaced by exactly that escape, whatever precedes or
  follows it.
\<close>

theorem null_byte_hex_escape:
  "encode [0x00] = 0x5C # bytes_of ''x00'' \<and>
   encode (P @ 0x00 # S) = encode P @ (0x5C # bytes_of ''x00'') @ encode S"
proof -
  have "encode (0x00 # S) = [0x5C, 0x78, 0x30, 0x30] @ encode S" for S
    by (simp add: encode_step body_special)
  then show ?thesis
    using encode_append_noncont[of "0x00" P S]
    by (simp add: cont_simps encode_Nil bytes_of_def)
qed

text \<open>
  Claim C9: when no write to the underlying writer fails, \<open>Write\<close> reports the whole
  length of the slice and no error. When the write of the first unit fails, \<open>Write\<close>
  returns that error and the width of that unit, at least 1; when it succeeds, \<open>Write\<close>
  returns what it returns on the rest of the slice, with the width of the unit added to the
  count. So when a prefix is written without error and the write of the next unit fails,
  \<open>Write\<close> returns that error and a count that covers the prefix and the whole unit
  whose write failed. Conversely, an error returned with count \<open>n\<close> comes from the
  write of the unit that ends at \<open>n\<close>, after \<open>m\<close> bytes written without error.
\<close>

theorem Write_count:
  "((\<forall>t bs. snd (wr t bs) = None) \<longrightarrow> snd (Write wr s data) = (length data, None))
   \<and> (snd (snd (Write wr s data)) = None \<longrightarrow> fst (snd (Write wr s data)) = length data)
   \<and> (data \<noteq> [] \<and> wr s (fst (body data)) = (s1, Some e) \<longrightarrow>
        Write wr s data = (s1, snd (body data), Some e) \<and> 1 \<le> snd (body data))
   \<and> (data \<noteq> [] \<and> wr s (fst (body data)) = (s1, None)
        \<and> Write wr s1 (drop (snd (body data)) data) = (s2, n2, err2) \<longrightarrow>
        Write wr s data = (s2, snd (body data) + n2, err2))
   \<and> (\<not> cont c \<and> Write wr s pre = (s0, length pre, None)
        \<and> wr s0 (fst (body (c # R))) = (s3, Some e) \<longrightarrow>
        Write wr s (pre @ c # R) = (s3, length pre + snd (body (c # R)), Some e))
   \<and> (Write wr s data = (s', n, Some e) \<longrightarrow>
        (\<exists>m t. m < n \<and> n \<le> length data \<and> Write wr s (take m data) = (t, m, None)
           \<and> n = m + snd (body (drop m data))
           \<and> wr t (fst (body (drop m data))) = (s', Some e)))"
proof (intro conjI impI)
  assume ok: "\<forall>t bs. snd (wr t bs) = None"
  have n: "snd (snd (Write wr s data)) = None" by (rule Write_all_succeed[OF ok])
  then have "Write wr s data = (fst (Write wr s data), fst (snd (Write wr s data)), None)"
    by (metis prod.collapse)
  then have "fst (snd (Write wr s data)) = length data" by (rule Write_None_length)
  with n show "snd (Write wr s data) = (length data, None)" by (metis prod.collapse)
next
  assume "snd (snd (Write wr s data)) = None"
  then have "Write wr s data = (fst (Write wr s data), fst (snd (Write wr s data)), None)"
    by (metis prod.collapse)
  then show "fst (snd (Write wr s data)) = length data" by (rule Write_None_length)
next
  assume "data \<noteq> [] \<and> wr s (fst (body data)) = (s1, Some e)"
  then show "Write wr s data = (s1, snd (body data), Some e)"
    using Write_step_fail[of data wr s s1 e] by simp
next
  assume "data \<noteq> [] \<and> wr s (fst (body data)) = (s1, Some e)"
  then show "1 \<le> snd (body data)" using body_advance[of data] by simp
next
  assume "data \<noteq> [] \<and> wr s (fst (body data)) = (s1, None)
        \<and> Write wr s1 (drop (snd (body data)) data) = (s2, n2, err2)"
  then show "Write wr s data = (s2, snd (body data) + n2, err2)"
    using Write_step_ok[of data wr s s1 s2 n2 err2] by simp
next
  assume "\<not> cont c \<and> Write wr s pre = (s0, length pre, None)
        \<and> wr s0 (fst (body (c # R))) = (s3, Some e)"
  then show "Write wr s (pre @ c # R) = (s3, length pre + snd (body (c # R)), Some e)"
    using Write_prefix_fail[of c wr s pre s0 R s3 e] by simp
next
  assume "Write wr s data = (s', n, Some e)"
  then show "\<exists>m t. m < n \<and> n \<le> length data \<and> Write wr s (take m data) = (t, m, None)
           \<and> n = m + snd (body (drop m data))
           \<and> wr t (fst (body (drop m data))) = (s', Some e)"
    by (rule Write_Some_unit)
qed

theorem Write_count_witness:
  "(\<forall>t bs. snd ((buffer_Write :: (byte list, unit) io_Writer) t bs) = None)
   \<and> snd (Write (buffer_Write :: (byte list, unit) io_Writer) [] [0x61, 0x0A])
        = (length [0x61, 0x0A :: byte], None)
   \<and> [0xC3, 0xA9, 0x62] \<noteq> ([] :: byte list)
   \<and> quota_Write (0, []) (fst (body [0xC3, 0xA9, 0x62])) = ((0, []), Some ''write failed'')
   \<and> Write quota_Write (0, []) [0xC3, 0xA9, 0x62] = ((0, []), 2, Some ''write failed'')
   \<and> quota_Write (1, []) (fst (body [0x61, 0xC3, 0xA9, 0x62])) = ((0, [0x61]), None)
   \<and> Write quota_Write (0, [0x61]) (drop (snd (body [0x61, 0xC3, 0xA9, 0x62])) [0x61, 0xC3, 0xA9, 0x62])
        = ((0, [0x61]), 2, Some ''write failed'')
   \<and> Write quota_Write (1, []) [0x61, 0xC3, 0xA9, 0x62] = ((0, [0x61]), 3, Some ''write failed'')
   \<and> \<not> cont 0xC3
   \<and> Write quota_Write (1, []) [0x61] = ((0, [0x61]), length [0x61 :: byte], None)
   \<and> quota_Write (0, [0x61]) (fst (body (0xC3 # [0xA9, 0x62]))) = ((0, [0x61]), Some ''write failed'')
   \<and> Write quota_Write (1, []) ([0x61] @ 0xC3 # [0xA9, 0x62])
        = ((0, [0x61]), length [0x61 :: byte] + snd (body (0xC3 # [0xA9, 0x62])), Some ''write failed'')
   \<and> (\<exists>m t. m < 3 \<and> 3 \<le> length [0x61, 0xC3, 0xA9, 0x62 :: byte]
         \<and> Write quota_Write (1, []) (take m [0x61, 0xC3, 0xA9, 0x62]) = (t, m, None)
         \<and> 3 = m + snd (body (drop m [0x61, 0xC3, 0xA9, 0x62]))
         \<and> quota_Write t (fst (body (drop m [0x61, 0xC3, 0xA9, 0x62])))
              = ((0, [0x61]), Some ''write failed''))"
proof -
  have ok: "\<forall>t bs. snd ((buffer_Write :: (byte list, unit) io_Writer) t bs) = None"
    by (simp add: buffer_Write_snd)
  have b4: "body [0x61, 0xC3, 0xA9, 0x62] = ([0x61], 1)"
    by (simp add: body_def DecodeRune_def first_def RuneError_def byteOrderMark_def)
  have nc: "\<not> cont 0xC3" by (simp add: cont_def)
  have h1: "quota_Write (0, []) (fst (body [0xC3, 0xA9, 0x62])) = ((0, []), Some ''write failed'')"
    by (simp add: quota_Write_def)
  have h2: "quota_Write (1, []) (fst (body [0x61, 0xC3, 0xA9, 0x62])) = ((0, [0x61]), None)"
    by (simp add: quota_Write_def b4)
  have h3: "Write quota_Write (0, [0x61])
        (drop (snd (body [0x61, 0xC3, 0xA9, 0x62])) [0x61, 0xC3, 0xA9, 0x62])
        = ((0, [0x61]), 2, Some ''write failed'')"
    by (simp add: b4 quota_fail)
  have h4: "Write quota_Write (1, []) [0x61] = ((0, [0x61]), length [0x61 :: byte], None)"
    using quota_ok by simp
  have h5: "quota_Write (0, [0x61]) (fst (body (0xC3 # [0xA9, 0x62])))
        = ((0, [0x61]), Some ''write failed'')"
    by (simp add: quota_Write_def)
  from Write_count[where wr = "buffer_Write :: (byte list, unit) io_Writer" and s = "[]"
      and data = "[0x61, 0x0A]"] ok
  have a: "snd (Write (buffer_Write :: (byte list, unit) io_Writer) [] [0x61, 0x0A])
        = (length [0x61, 0x0A :: byte], None)" by blast
  from Write_count[where wr = quota_Write and s = "(0, [])" and data = "[0xC3, 0xA9, 0x62]"
      and ?s1.0 = "(0, [])" and e = "''write failed''"] h1
  have b: "Write quota_Write (0, []) [0xC3, 0xA9, 0x62] = ((0, []), 2, Some ''write failed'')"
    by (simp add: body_unit2)
  note W = Write_count[where wr = quota_Write and s = "(1, [])"
      and data = "[0x61, 0xC3, 0xA9, 0x62]" and ?s1.0 = "(0, [0x61])" and ?s2.0 = "(0, [0x61])"
      and ?n2.0 = 2 and ?err2.0 = "Some ''write failed''" and c = "0xC3" and pre = "[0x61]"
      and ?s0.0 = "(0, [0x61])" and R = "[0xA9, 0x62]" and ?s3.0 = "(0, [0x61])"
      and e = "''write failed''" and s' = "(0, [0x61])" and n = 3]
  from W h2 h3 have c: "Write quota_Write (1, []) [0x61, 0xC3, 0xA9, 0x62]
      = ((0, [0x61]), 3, Some ''write failed'')"
    by (simp add: b4)
  from W nc h4 h5 have d: "Write quota_Write (1, []) ([0x61] @ 0xC3 # [0xA9, 0x62])
        = ((0, [0x61]), length [0x61 :: byte] + snd (body (0xC3 # [0xA9, 0x62])), Some ''write failed'')"
    by blast
  from W c have e: "\<exists>m t. m < 3 \<and> 3 \<le> length [0x61, 0xC3, 0xA9, 0x62 :: byte]
         \<and> Write quota_Write (1, []) (take m [0x61, 0xC3, 0xA9, 0x62]) = (t, m, None)
         \<and> 3 = m + snd (body (drop m [0x61, 0xC3, 0xA9, 0x62]))
         \<and> quota_Write t (fst (body (drop m [0x61, 0xC3, 0xA9, 0x62])))
              = ((0, [0x61]), Some ''write failed'')"
    by blast
  from ok a h1 b h2 h3 c nc h4 h5 d e show ?thesis by simp
qed

text \<open>
  Claim C10: scanning the emitted text from the left, every backslash met begins one of the
  escapes backslash-backslash, backslash-quote, backslash-n or backslash-x followed by two
  lower-case hexadecimal digits; a backslash in the input is always emitted doubled.
\<close>

theorem encode_backslashes:
  "escapes_wellformed (encode B) \<and> encode (P @ 0x5C # S) = encode P @ [0x5C, 0x5C] @ encode S"
  using encode_escapes_wellformed[of B] encode_append_noncont[of "0x5C" P S]
  by (simp add: cont_simps encode_Cons_special)

end
